theory Spec2Isabelle
  imports Complex_Main "HOL-Library.Extended_Nat"
begin

section \<open>Alignment engine of transcribe.py: shallow embedding\<close>

text \<open>
  The definitions below follow \<^verbatim>\<open>SCRIPTS/AudioScripts/Transcriber/transcribe.py\<close>.
  Python's unbounded integers are \<^typ>\<open>int\<close>; indices and lengths are \<^typ>\<open>nat\<close>.
  Python floats are modelled by exact rationals (\<^typ>\<open>rat\<close>). Where the program rounds a
  double (\<^verbatim>\<open>int(round(t * 1000))\<close>, the shares of \<^verbatim>\<open>_weighted_durations\<close>) or compares
  sums of doubles (\<^verbatim>\<open>_dominant_src\<close>), the exact value can fall on the other side of a
  tie, so a value computed by the model may differ from the program's by 1 ms; the
  bounds proved below do not depend on the side. The concrete inputs evaluated below
  have dyadic intermediate values or word times of whole milliseconds, where the double
  computation and the rational one coincide.
\<close>

subsection \<open>Constants (lines 54-56)\<close>

definition MIN_MATCH_MS :: int where
  "MIN_MATCH_MS = 200"

definition RECOVER_LOOKAHEAD_SENTENCES :: nat where
  "RECOVER_LOOKAHEAD_SENTENCES = 8"

definition MAX_EXTRA_TOKENS :: nat where
  "MAX_EXTRA_TOKENS = 6"

subsection \<open>Python strings\<close>

text \<open>
  A Python \<^verbatim>\<open>str\<close> is a sequence of Unicode code points, here the list of their
  \<^verbatim>\<open>ord\<close> values (\<open>len\<close> counts code points). \<open>str\<close> turns an ASCII literal into that form.
  \<open>is_space\<close> is the character class of \<^verbatim>\<open>str.strip()\<close>, \<^verbatim>\<open>str.isspace()\<close> and
  of \<^verbatim>\<open>\s\<close> in a \<^verbatim>\<open>str\<close> pattern of \<^verbatim>\<open>re\<close>.
\<close>

type_synonym pystr = "int list"

definition str :: "string \<Rightarrow> pystr" where
  "str s = map of_char s"

definition is_space :: "int \<Rightarrow> bool" where
  "is_space c \<longleftrightarrow>
     (9 \<le> c \<and> c \<le> 13) \<or> (28 \<le> c \<and> c \<le> 32) \<or> c = 133 \<or> c = 160 \<or> c = 5760 \<or>
     (8192 \<le> c \<and> c \<le> 8202) \<or> c = 8232 \<or> c = 8233 \<or> c = 8239 \<or> c = 8287 \<or> c = 12288"

definition py_lstrip :: "pystr \<Rightarrow> pystr" where
  "py_lstrip s = dropWhile is_space s"

definition py_rstrip :: "pystr \<Rightarrow> pystr" where
  "py_rstrip s = rev (dropWhile is_space (rev s))"

definition py_strip :: "pystr \<Rightarrow> pystr" where
  "py_strip s = py_rstrip (py_lstrip s)"

text \<open>Python slices \<^verbatim>\<open>s[i:j]\<close>, \<^verbatim>\<open>s[:j]\<close>, \<^verbatim>\<open>s[i:]\<close> with non-negative bounds.\<close>

definition slice :: "'a list \<Rightarrow> nat \<Rightarrow> nat \<Rightarrow> 'a list" where
  "slice s i j = take (j - i) (drop i s)"

subsection \<open>Rounding: Python's \<^verbatim>\<open>round\<close> (half to even) and \<^verbatim>\<open>int\<close> (truncation)\<close>

definition py_round :: "rat \<Rightarrow> int" where
  "py_round x =
     (let f = \<lfloor>x\<rfloor>; d = x - of_int f
      in if d < 1 / 2 then f else if 1 / 2 < d then f + 1
         else if even f then f else f + 1)"

subsection \<open>\<^verbatim>\<open>_weighted_durations\<close> (lines 2595-2626)\<close>

text \<open>
  The drift loop of lines 2612-2618:
  \<^verbatim>\<open>while diff != 0 and i < n * 2: idx = i % n; if out[idx] + step >= 0: ...; i += 1\<close>.
\<close>

function drift_loop :: "int \<Rightarrow> nat \<Rightarrow> nat \<Rightarrow> int list \<Rightarrow> int \<Rightarrow> int list" where
  "drift_loop step n i out diff =
     (if diff \<noteq> 0 \<and> i < n * 2 then
        (let idx = i mod n in
         if out ! idx + step \<ge> 0
         then drift_loop step n (i + 1) (out[idx := out ! idx + step]) (diff - step)
         else drift_loop step n (i + 1) out diff)
      else out)"
  by pat_completeness auto
termination
  by (relation "measure (\<lambda>(step, n, i, out, diff). n * 2 - i)") auto

declare drift_loop.simps [simp del]

definition drift_fix :: "int \<Rightarrow> int list \<Rightarrow> int list" where
  "drift_fix total_ms out =
     (let diff = total_ms - sum_list out in
      if diff \<noteq> 0
      then drift_loop (if diff > 0 then 1 else - 1) (length out) 0 out diff
      else out)"

text \<open>Lines 2619-2625; the caller guarantees a non-empty list, so \<^verbatim>\<open>out[-1]\<close> exists.\<close>

definition clamp_fix :: "int \<Rightarrow> int list \<Rightarrow> int list" where
  "clamp_fix total_ms out =
     (if total_ms > 0 then
        (let out2 = map (\<lambda>x. if x < 1 then 1 else x) out;
             total = sum_list out2
         in if total \<noteq> total_ms
            then out2[length out2 - 1 := out2 ! (length out2 - 1) + (total_ms - total)]
            else out2)
      else out)"

definition raw_shares :: "int \<Rightarrow> int list \<Rightarrow> int \<Rightarrow> rat list" where
  "raw_shares total_ms weights min_each =
     (let n = length weights;
          min_each_f0 = (of_int min_each :: rat);
          min_each_f = (if of_int total_ms < min_each_f0 * of_nat n
                        then of_int total_ms / of_nat n else min_each_f0);
          ws = (of_int (sum_list weights) :: rat);
          weight_sum = (if ws = 0 then 1 else ws);
          remaining = max 0 (of_int total_ms - min_each_f * of_nat n)
      in map (\<lambda>w. min_each_f + remaining * (of_int w / weight_sum)) weights)"

definition weighted_durations :: "int \<Rightarrow> int list \<Rightarrow> int \<Rightarrow> int list" where
  "weighted_durations total_ms weights min_each =
     (let n = length weights in
      if n = 0 then []
      else if total_ms \<le> 0 then replicate n 0
      else
        let raw = raw_shares total_ms weights min_each;
            out = map py_round raw
        in clamp_fix total_ms (drift_fix total_ms out))"

subsection \<open>\<^verbatim>\<open>_atomic_replace_with_retry\<close> (lines 1673-1695)\<close>

text \<open>
  The exceptions \<^verbatim>\<open>os.replace\<close> can raise, as the handler tells them apart:
  \<^verbatim>\<open>PermissionError\<close> (a subclass of \<^verbatim>\<open>OSError\<close>, caught first), any other
  \<^verbatim>\<open>OSError\<close> with the value of \<^verbatim>\<open>getattr(exc, "winerror", None)\<close>, and an
  exception that is no \<^verbatim>\<open>OSError\<close> at all.
\<close>

datatype py_exc = PermissionError | OSError "int option" | OtherException

datatype replace_result = Replaced | Raises py_exc

text \<open>The handler's test: which exceptions are recorded in \<^verbatim>\<open>last_exc\<close> and retried.\<close>

fun retried :: "py_exc \<Rightarrow> bool" where
  "retried PermissionError = True"
| "retried (OSError w) = (w = Some 5 \<or> w = Some 32)"
| "retried OtherException = False"

text \<open>\<^verbatim>\<open>min(0.25, base_sleep * (1.0 + 0.15 * i))\<close>, in seconds.\<close>

definition pause :: "rat \<Rightarrow> nat \<Rightarrow> rat" where
  "pause base_sleep i = min (1 / 4) (base_sleep * (1 + (15 / 100) * of_nat i))"

text \<open>
  The file system is an oracle \<open>env\<close>: \<open>env k\<close> is what the \<open>k\<close>-th call of
  \<^verbatim>\<open>os.replace\<close> does. A run returns the outcome (\<open>Inl\<close> the exception raised,
  \<open>Inr ()\<close> a normal return), the number of calls made and the sleeps taken.
\<close>

type_synonym replace_run = "(py_exc + unit) \<times> nat \<times> rat list"

function retry_loop ::
  "(nat \<Rightarrow> replace_result) \<Rightarrow> rat \<Rightarrow> nat \<Rightarrow> nat \<Rightarrow> py_exc option \<Rightarrow> rat list \<Rightarrow> replace_run" where
  "retry_loop env base_sleep n i last_exc slept =
     (if i < n then
        (case env i of
           Replaced \<Rightarrow> (Inr (), i + 1, slept)
         | Raises exc \<Rightarrow>
             if retried exc
             then retry_loop env base_sleep n (i + 1) (Some exc) (slept @ [pause base_sleep i])
             else (Inl exc, i + 1, slept))
      else
        (case last_exc of
           Some exc \<Rightarrow> (Inl exc, i, slept)
         | None \<Rightarrow>
             (case env i of
                Replaced \<Rightarrow> (Inr (), i + 1, slept)
              | Raises exc \<Rightarrow> (Inl exc, i + 1, slept))))"
  by pat_completeness auto
termination
  by (relation "measure (\<lambda>(env, base_sleep, n, i, last_exc, slept). n - i)") auto

declare retry_loop.simps [simp del]

definition atomic_replace_with_retry :: "(nat \<Rightarrow> replace_result) \<Rightarrow> int \<Rightarrow> rat \<Rightarrow> replace_run" where
  "atomic_replace_with_retry env retries base_sleep =
     retry_loop env base_sleep (nat (max 1 retries)) 0 None []"

text \<open>The defaults of the signature: \<^verbatim>\<open>retries: int = 40, base_sleep: float = 0.05\<close>.\<close>

definition atomic_replace_default :: "(nat \<Rightarrow> replace_result) \<Rightarrow> replace_run" where
  "atomic_replace_default env = atomic_replace_with_retry env 40 (1 / 20)"

subsection \<open>Sentences and alignment results (lines 754-758, 1283)\<close>

text \<open>
  A \<^verbatim>\<open>Sentence\<close> carries \<open>text\<close>, \<open>norm\<close> and \<open>tokens\<close>; \<open>meta\<close> is attached
  later. Of \<open>meta\<close> the aligner and the writer read the \<open>placeholder\<close> entry, which
  the program only ever sets to \<^verbatim>\<open>True\<close> or \<^verbatim>\<open>False\<close>: \<open>s_placeholder\<close> holds
  when \<open>meta\<close> is a dict whose \<open>placeholder\<close> is \<^verbatim>\<open>True\<close>.
\<close>

record sentence =
  s_text :: pystr
  s_norm :: pystr
  s_tokens :: "pystr list"
  s_placeholder :: bool

text \<open>A result entry \<^verbatim>\<open>(Sentence, start_ms, end_ms, audio_file)\<close>; \<open>None\<close> is Python's.\<close>

type_synonym result_entry = "sentence \<times> int option \<times> int option \<times> pystr option"

definition r_start :: "result_entry \<Rightarrow> int option" where
  "r_start r = fst (snd r)"

definition r_end :: "result_entry \<Rightarrow> int option" where
  "r_end r = fst (snd (snd r))"

definition r_src :: "result_entry \<Rightarrow> pystr option" where
  "r_src r = snd (snd (snd r))"

subsection \<open>\<^verbatim>\<open>save_progress_json\<close>: the items loop (lines 1714-1746)\<close>

text \<open>
  Of an item of the previous JSON file the loop reads \<open>text\<close>, \<open>start_ms\<close>, \<open>end_ms\<close>
  and \<open>audio_file\<close>; an entry that is no dict is \<open>None\<close>. \<open>j_text\<close> is
  \<^verbatim>\<open>prev.get("text") or ""\<close>.
\<close>

record json_item =
  j_text :: pystr
  j_start :: "int option"
  j_end :: "int option"
  j_audio :: "pystr option"

text \<open>
  Of an emitted item (\<^verbatim>\<open>_build_item\<close>) the fields the loop sets or reads back; the
  other fields (\<open>normalized\<close>, \<open>tokens\<close>, \<open>merged_with\<close>, \<open>order\<close>, ...) are copied
  from the sentence and do not depend on the loop state.
\<close>

record out_item =
  o_idx :: nat
  o_text :: pystr
  o_start :: "int option"
  o_end :: "int option"
  o_audio :: "pystr option"

text \<open>\<^verbatim>\<open>times.get(i, (None, None, None))\<close>: \<open>times[i]\<close> is the \<open>i\<close>-th result.\<close>

definition times_get :: "result_entry list \<Rightarrow> nat \<Rightarrow> int option \<times> int option \<times> pystr option" where
  "times_get results i = (if i < length results then snd (results ! i) else (None, None, None))"

text \<open>Lines 1724-1734: the entry's own time, from the results or else from the previous file.\<close>

definition own_time ::
  "result_entry list \<Rightarrow> json_item option list option \<Rightarrow> nat \<Rightarrow> sentence \<Rightarrow>
   int option \<times> int option \<times> pystr option" where
  "own_time results existing_items i sent =
     (case times_get results i of (st, en, src) \<Rightarrow>
        (case existing_items of
           None \<Rightarrow> (st, en, src)
         | Some ex \<Rightarrow>
             if st = None \<and> ex \<noteq> [] \<and> i < length ex then
               (case ex ! i of
                  None \<Rightarrow> (st, en, src)
                | Some prev \<Rightarrow>
                    let prev_text = py_strip (j_text prev) in
                    if prev_text \<noteq> [] \<and> prev_text = py_strip (s_text sent) then
                      (case j_start prev of
                         None \<Rightarrow> (st, en, src)
                       | Some prev_st \<Rightarrow> (Some prev_st, j_end prev, j_audio prev))
                    else (st, en, src))
             else (st, en, src)))"

text \<open>Truthiness of \<^verbatim>\<open>items[-1].get("audio_file")\<close>: not \<open>None\<close> and not empty.\<close>

definition truthy_str :: "pystr option \<Rightarrow> bool" where
  "truthy_str a = (case a of None \<Rightarrow> False | Some s \<Rightarrow> s \<noteq> [])"

fun save_loop ::
  "result_entry list \<Rightarrow> json_item option list option \<Rightarrow> nat \<Rightarrow> sentence list \<Rightarrow>
   int option \<Rightarrow> pystr option \<Rightarrow> out_item list" where
  "save_loop results existing_items i [] last_end_ms last_audio_file = []"
| "save_loop results existing_items i (sent # rest) last_end_ms last_audio_file =
     (case own_time results existing_items i sent of (st0, en0, src0) \<Rightarrow>
        let patch = (st0 = None \<and> s_placeholder sent \<and> last_end_ms \<noteq> None);
            st = (if patch then last_end_ms else st0);
            en = (if patch then last_end_ms else en0);
            src = (if patch \<and> src0 = None then last_audio_file else src0);
            item = \<lparr>o_idx = i, o_text = s_text sent, o_start = st, o_end = en, o_audio = src\<rparr>;
            last_end_ms' = (if en \<noteq> None then en else last_end_ms);
            last_audio_file' = (if en \<noteq> None \<and> truthy_str src then src else last_audio_file)
        in item # save_loop results existing_items (i + 1) rest last_end_ms' last_audio_file')"

definition save_items ::
  "result_entry list \<Rightarrow> json_item option list option \<Rightarrow> sentence list \<Rightarrow> out_item list" where
  "save_items results existing_items sentences_all =
     save_loop results existing_items 0 sentences_all None None"

text \<open>
  What the claim calls the previous non-null \<open>end_ms\<close> and the previous committed
  item's file, read off the items emitted before position \<open>i\<close>.
\<close>

definition prev_end :: "out_item list \<Rightarrow> int option" where
  "prev_end items =
     (let timed = filter (\<lambda>it. o_end it \<noteq> None) items
      in if timed = [] then None else o_end (last timed))"

definition prev_audio :: "out_item list \<Rightarrow> pystr option" where
  "prev_audio items =
     (let named = filter (\<lambda>it. o_end it \<noteq> None \<and> truthy_str (o_audio it)) items
      in if named = [] then None else o_audio (last named))"

subsection \<open>Words and the aligner state (lines 486-490, 1265-1284)\<close>

text \<open>Word times are seconds on the global timeline (Python floats).\<close>

record word =
  w_text :: pystr
  w_start :: rat
  w_end :: rat

record aligner =
  sentences :: "sentence list"
  min_score :: int
  max_checks :: int
  dynamic_factor :: int
  word_texts :: "pystr list"
  words :: "word list"
  word_srcs :: "pystr option list"
  cursor :: nat
  sent_idx :: nat
  last_start_ms :: int
  last_end_ms :: int
  stop_idx :: "nat option"
  forced_src :: "pystr option"
  results :: "result_entry list"

definition init_aligner :: "sentence list \<Rightarrow> aligner" where
  "init_aligner ss =
     \<lparr>sentences = ss, min_score = 75, max_checks = 4000, dynamic_factor = 20,
      word_texts = [], words = [], word_srcs = [], cursor = 0, sent_idx = 0,
      last_start_ms = - 1, last_end_ms = - 1, stop_idx = None, forced_src = None,
      results = []\<rparr>"

text \<open>\<^verbatim>\<open>int(round(t * 1000))\<close> of a word time, on the exact value of \<open>t\<close>.\<close>

definition ms_of :: "rat \<Rightarrow> int" where
  "ms_of t = py_round (t * 1000)"

subsection \<open>Text helpers (lines 143-151, 1286-1287)\<close>

text \<open>
  \<^verbatim>\<open>_compact_for_match\<close> is \<^verbatim>\<open>_COMPACT_RE.sub("", s.lower())\<close> with
  \<^verbatim>\<open>_COMPACT_RE = [^0-9a-z]+\<close>: per code point, what \<^verbatim>\<open>lower()\<close> leaves inside
  \<open>0-9a-z\<close>. Besides \<open>A-Z\<close> only U+212A (Kelvin sign, lowered to \<open>k\<close>) and U+0130
  (lowered to \<open>i\<close> and a combining dot) lower into that range.
\<close>

definition compact_char :: "int \<Rightarrow> pystr" where
  "compact_char c =
     (if 65 \<le> c \<and> c \<le> 90 then [c + 32]
      else if (48 \<le> c \<and> c \<le> 57) \<or> (97 \<le> c \<and> c \<le> 122) then [c]
      else if c = 8490 then [107]
      else if c = 304 then [105]
      else [])"

definition compact_for_match :: "pystr \<Rightarrow> pystr" where
  "compact_for_match s = concat (map compact_char s)"

definition compact_token_eq :: "pystr \<Rightarrow> pystr \<Rightarrow> bool" where
  "compact_token_eq a b =
     (if a = [] \<or> b = [] then False else compact_for_match a = compact_for_match b)"

text \<open>\<^verbatim>\<open>" ".join(tokens)\<close>.\<close>

fun join_space :: "pystr list \<Rightarrow> pystr" where
  "join_space [] = []"
| "join_space [t] = t"
| "join_space (t # ts) = t @ [32] @ join_space ts"

subsection \<open>\<^verbatim>\<open>_try_match_sentence_core\<close>: window sizes (lines 1325-1330, 1392-1403)\<close>

text \<open>\<^verbatim>\<open>int(n * c)\<close> for a non-negative count \<open>n\<close> and a float constant \<open>c\<close>.\<close>

definition int_scale :: "nat \<Rightarrow> rat \<Rightarrow> nat" where
  "int_scale n c = nat \<lfloor>of_nat n * c\<rfloor>"

definition sentence_len :: "sentence \<Rightarrow> nat" where
  "sentence_len s = max 1 (length (s_tokens s))"

definition base_lens :: "nat \<Rightarrow> nat list" where
  "base_lens L = [L, max 1 (int_scale L (8 / 10)), max 1 (int_scale L (12 / 10))]"

definition expansions :: "bool \<Rightarrow> rat list" where
  "expansions aggressive =
     (if aggressive then [6 / 10, 8 / 10, 1, 13 / 10, 16 / 10, 2, 25 / 10]
      else [1, 13 / 10, 16 / 10, 2])"

definition max_len :: "nat \<Rightarrow> bool \<Rightarrow> nat" where
  "max_len L aggressive =
     L + max MAX_EXTRA_TOKENS (int_scale L (if aggressive then 6 / 10 else 2 / 10))"

text \<open>
  Lines 1393-1398: the candidate sizes of one expansion; \<open>seen\<close> holds exactly the
  members of \<open>cand\<close>. \<open>avail\<close> is \<^verbatim>\<open>len(self.words) - self.cursor\<close>.
\<close>

fun cand_loop :: "rat \<Rightarrow> nat \<Rightarrow> nat list \<Rightarrow> nat list \<Rightarrow> nat list" where
  "cand_loop expn avail [] cand = cand"
| "cand_loop expn avail (k0 # rest) cand =
     (let k = max 1 (int_scale k0 expn) in
      if k \<notin> set cand \<and> k \<le> avail
      then cand_loop expn avail rest (cand @ [k])
      else cand_loop expn avail rest cand)"

text \<open>Lines 1399-1403: \<open>None\<close> stands for \<^verbatim>\<open>continue\<close> (no candidate left).\<close>

definition window_cands :: "nat \<Rightarrow> bool \<Rightarrow> nat \<Rightarrow> rat \<Rightarrow> nat list option" where
  "window_cands L aggressive avail expn =
     (let cand = cand_loop expn avail (base_lens L) [] in
      if cand = [] then None
      else let cand' = filter (\<lambda>k. k \<le> max_len L aggressive) cand in
           if cand' = [] then None else Some cand')"

subsection \<open>\<^verbatim>\<open>_end_idx_from_matches\<close> (lines 1347-1390)\<close>

text \<open>The two \<^verbatim>\<open>for j in (2, 3)\<close> loops: the first \<open>j\<close> whose merge matches.\<close>

definition merge_sent :: "pystr list \<Rightarrow> pystr list \<Rightarrow> nat \<Rightarrow> nat \<Rightarrow> nat option" where
  "merge_sent sent_comp win_comp sent_i w_i =
     (let ok = (\<lambda>j. sent_i + j \<le> length sent_comp \<and>
                    concat (slice sent_comp sent_i (sent_i + j)) \<noteq> [] \<and>
                    concat (slice sent_comp sent_i (sent_i + j)) = win_comp ! w_i)
      in if ok 2 then Some 2 else if ok 3 then Some 3 else None)"

definition merge_win :: "pystr list \<Rightarrow> pystr list \<Rightarrow> nat \<Rightarrow> nat \<Rightarrow> nat option" where
  "merge_win sent_comp win_comp sent_i w_i =
     (let ok = (\<lambda>j. w_i + j \<le> length win_comp \<and>
                    concat (slice win_comp w_i (w_i + j)) \<noteq> [] \<and>
                    concat (slice win_comp w_i (w_i + j)) = sent_comp ! sent_i)
      in if ok 2 then Some 2 else if ok 3 then Some 3 else None)"

function end_idx_loop ::
  "pystr list \<Rightarrow> pystr list \<Rightarrow> nat \<Rightarrow> nat \<Rightarrow> nat option \<Rightarrow> nat option" where
  "end_idx_loop sent_comp win_comp sent_i w_i last_match =
     (if sent_i < length sent_comp \<and> w_i < length win_comp then
        (if sent_comp ! sent_i \<noteq> [] \<and> sent_comp ! sent_i = win_comp ! w_i
         then end_idx_loop sent_comp win_comp (sent_i + 1) (w_i + 1) (Some w_i)
         else
           (case merge_sent sent_comp win_comp sent_i w_i of
              Some j \<Rightarrow> end_idx_loop sent_comp win_comp (sent_i + j) (w_i + 1) (Some w_i)
            | None \<Rightarrow>
                (case merge_win sent_comp win_comp sent_i w_i of
                   Some j \<Rightarrow>
                     end_idx_loop sent_comp win_comp (sent_i + 1) (w_i + j) (Some (w_i + j - 1))
                 | None \<Rightarrow> end_idx_loop sent_comp win_comp sent_i (w_i + 1) last_match)))
      else last_match)"
  by pat_completeness auto
termination
  by (relation "measure (\<lambda>(sent_comp, win_comp, sent_i, w_i, last_match). length win_comp - w_i)")
     (auto simp: merge_win_def Let_def split: if_splits)

declare end_idx_loop.simps [simp del]

definition end_idx_from_matches :: "sentence \<Rightarrow> pystr list \<Rightarrow> nat \<Rightarrow> nat \<Rightarrow> nat" where
  "end_idx_from_matches s win_tokens start_idx fallback_end_idx =
     (if s_tokens s = [] then fallback_end_idx
      else
        (case end_idx_loop (map compact_for_match (s_tokens s))
                (map compact_for_match win_tokens) 0 0 None of
           None \<Rightarrow> fallback_end_idx
         | Some last_match \<Rightarrow> start_idx + last_match + 1))"

subsection \<open>\<^verbatim>\<open>_try_match_sentence_core\<close>: scoring and scanning (lines 1331-1346, 1404-1469)\<close>

text \<open>
  \<^verbatim>\<open>_best_score\<close> (line 1256) calls the rapidfuzz library; it is the parameter \<open>score\<close>
  of every function below. A hit is the tuple \<^verbatim>\<open>(st, en, src_win, end_idx)\<close>.
\<close>

type_synonym scorer = "pystr \<Rightarrow> pystr \<Rightarrow> int"

type_synonym hit = "int \<times> int \<times> pystr option \<times> nat"

definition dyn_limit :: "aligner \<Rightarrow> bool \<Rightarrow> int" where
  "dyn_limit a aggressive =
     (let d = max (max_checks a) (dynamic_factor a * max 0 (int (length (words a)) - int (cursor a)))
      in if aggressive then max d 200000 else d)"

definition score_threshold :: "aligner \<Rightarrow> bool \<Rightarrow> int" where
  "score_threshold a aggressive = (if aggressive then 62 else min_score a)"

text \<open>Lines 1415-1420 and 1450-1455: the score of one window.\<close>

definition window_score :: "scorer \<Rightarrow> aligner \<Rightarrow> sentence \<Rightarrow> bool \<Rightarrow> pystr list \<Rightarrow> int" where
  "window_score score a s aggressive win_tokens =
     (let win = join_space win_tokens;
          sc = score (s_norm s) win;
          s_compact = compact_for_match (s_norm s)
      in if sc < score_threshold a aggressive \<and> s_compact \<noteq> [] then
           (let win_compact = compact_for_match win in
            if win_compact \<noteq> [] then max sc (score s_compact win_compact) else sc)
         else sc)"

text \<open>Lines 1427-1436 and 1457-1466: the timing of an accepted window.\<close>

definition make_hit :: "aligner \<Rightarrow> sentence \<Rightarrow> nat \<Rightarrow> nat \<Rightarrow> hit" where
  "make_hit a s i k =
     (let win_tokens = slice (word_texts a) i (i + k);
          end_idx = end_idx_from_matches s win_tokens i (i + k);
          st0 = ms_of (w_start (words a ! i));
          en0 = ms_of (w_end (words a ! (end_idx - 1)));
          st = max st0 (last_end_ms a + 1);
          en = max en0 st;
          en' = (if en - st < MIN_MATCH_MS then st + MIN_MATCH_MS else en)
      in (st, en', None, end_idx))"

text \<open>
  The scan state: the counter \<open>checks\<close> and, as a record of the calls made, the windows
  \<open>(i, k)\<close> handed to \<^verbatim>\<open>_best_score\<close> so far.
\<close>

type_synonym scan_state = "nat \<times> (nat \<times> nat) list"

definition tick :: "scan_state \<Rightarrow> nat \<Rightarrow> nat \<Rightarrow> scan_state" where
  "tick st i k = (fst st + 1, snd st @ [(i, k)])"

text \<open>Lines 1442-1468 for one \<open>k\<close>: the sliding scan from \<open>i\<close>.\<close>

function slide ::
  "scorer \<Rightarrow> aligner \<Rightarrow> sentence \<Rightarrow> bool \<Rightarrow> nat \<Rightarrow> nat \<Rightarrow> scan_state \<Rightarrow> hit option \<times> scan_state" where
  "slide score a s aggressive k i st =
     (if i + k \<le> length (words a) then
        (if int (fst st) > dyn_limit a aggressive then (None, st)
         else
           let sc = window_score score a s aggressive (slice (word_texts a) i (i + k));
               st' = tick st i k
           in if sc \<ge> score_threshold a aggressive then (Some (make_hit a s i k), st')
              else slide score a s aggressive k
                     (i + max 1 (k div (if aggressive then 10 else 6))) st')
      else (None, st))"
  by pat_completeness auto
termination
  by (relation "measure (\<lambda>(score, a, s, aggressive, k, i, st). length (words a) + 1 - i)") auto

declare slide.simps [simp del]

fun slide_cands ::
  "scorer \<Rightarrow> aligner \<Rightarrow> sentence \<Rightarrow> bool \<Rightarrow> nat list \<Rightarrow> scan_state \<Rightarrow> hit option \<times> scan_state" where
  "slide_cands score a s aggressive [] st = (None, st)"
| "slide_cands score a s aggressive (k # ks) st =
     (case slide score a s aggressive k (cursor a) st of
        (Some h, st') \<Rightarrow> (Some h, st')
      | (None, st') \<Rightarrow> slide_cands score a s aggressive ks st')"

text \<open>Lines 1421-1422: \<^verbatim>\<open>if best is None or score > best[0]: best = (score, i, k)\<close>.\<close>

definition better :: "(int \<times> nat \<times> nat) option \<Rightarrow> int \<Rightarrow> nat \<Rightarrow> nat \<Rightarrow> (int \<times> nat \<times> nat) option" where
  "better best sc i k =
     (case best of
        None \<Rightarrow> Some (sc, i, k)
      | Some (b, bi, bk) \<Rightarrow> if sc > b then Some (sc, i, k) else best)"

text \<open>
  Lines 1407-1422: the best window ending at \<open>end_idx\<close>; \<open>best\<close> is
  \<^verbatim>\<open>(score, i, k)\<close>. \<^verbatim>\<open>i = end_idx - (k - 1)\<close> can be negative, which \<^verbatim>\<open>i < self.cursor\<close>
  skips.
\<close>

fun tail_best ::
  "scorer \<Rightarrow> aligner \<Rightarrow> sentence \<Rightarrow> bool \<Rightarrow> nat \<Rightarrow> nat list \<Rightarrow> (int \<times> nat \<times> nat) option \<Rightarrow>
   scan_state \<Rightarrow> (int \<times> nat \<times> nat) option \<times> scan_state" where
  "tail_best score a s aggressive end_idx [] best st = (best, st)"
| "tail_best score a s aggressive end_idx (k # ks) best st =
     (if end_idx + 1 < k + cursor a \<or> end_idx + 1 > length (words a)
      then tail_best score a s aggressive end_idx ks best st
      else if int (fst st) > dyn_limit a aggressive then (best, st)
      else
        let i = end_idx + 1 - k;
            sc = window_score score a s aggressive (slice (word_texts a) i (i + k));
            st' = tick st i k
        in tail_best score a s aggressive end_idx ks (better best sc i k) st')"

text \<open>Lines 1405-1436: the tail-anchored scan; the flag tells whether line 1424 broke out.\<close>

fun tail_scan ::
  "scorer \<Rightarrow> aligner \<Rightarrow> sentence \<Rightarrow> bool \<Rightarrow> nat list \<Rightarrow> nat list \<Rightarrow> scan_state \<Rightarrow>
   hit option \<times> scan_state" where
  "tail_scan score a s aggressive cand [] st = (None, st)"
| "tail_scan score a s aggressive cand (end_idx # rest) st =
     (case tail_best score a s aggressive end_idx cand None st of
        (best, st') \<Rightarrow>
          if int (fst st') > dyn_limit a aggressive then (None, st')
          else
            (case best of
               Some (b, i, k) \<Rightarrow>
                 if b \<ge> score_threshold a aggressive then (Some (make_hit a s i k), st')
                 else tail_scan score a s aggressive cand rest st'
             | None \<Rightarrow> tail_scan score a s aggressive cand rest st'))"

definition require_tail :: "sentence \<Rightarrow> bool" where
  "require_tail s =
     (length (s_tokens s) \<ge> 8 \<and>
      length (compact_for_match (if s_tokens s = [] then [] else last (s_tokens s))) \<ge> 3)"

definition tail_positions :: "aligner \<Rightarrow> sentence \<Rightarrow> nat list" where
  "tail_positions a s =
     filter (\<lambda>idx. compact_token_eq (word_texts a ! idx)
                     (if s_tokens s = [] then [] else last (s_tokens s)))
       [cursor a ..< length (word_texts a)]"

text \<open>Lines 1392-1469: the loop over the expansions.\<close>

fun exp_loop ::
  "scorer \<Rightarrow> aligner \<Rightarrow> sentence \<Rightarrow> bool \<Rightarrow> rat list \<Rightarrow> scan_state \<Rightarrow> hit option \<times> scan_state" where
  "exp_loop score a s aggressive [] st = (None, st)"
| "exp_loop score a s aggressive (expn # exps) st =
     (case window_cands (sentence_len s) aggressive (length (words a) - cursor a) expn of
        None \<Rightarrow> exp_loop score a s aggressive exps st
      | Some cand \<Rightarrow>
          (if require_tail s \<and> tail_positions a s \<noteq> [] then
             (case tail_scan score a s aggressive cand (tail_positions a s) st of
                (Some h, st1) \<Rightarrow> (Some h, st1)
              | (None, st1) \<Rightarrow>
                  if int (fst st1) > dyn_limit a aggressive then (None, st1)
                  else
                    (case slide_cands score a s aggressive cand st1 of
                       (Some h, st2) \<Rightarrow> (Some h, st2)
                     | (None, st2) \<Rightarrow> exp_loop score a s aggressive exps st2))
           else
             (case slide_cands score a s aggressive cand st of
                (Some h, st2) \<Rightarrow> (Some h, st2)
              | (None, st2) \<Rightarrow> exp_loop score a s aggressive exps st2)))"

definition try_match_sentence_core_run ::
  "scorer \<Rightarrow> aligner \<Rightarrow> sentence \<Rightarrow> bool \<Rightarrow> hit option \<times> scan_state" where
  "try_match_sentence_core_run score a s aggressive =
     exp_loop score a s aggressive (expansions aggressive) (0, [])"

definition try_match_sentence_core :: "scorer \<Rightarrow> aligner \<Rightarrow> sentence \<Rightarrow> bool \<Rightarrow> hit option" where
  "try_match_sentence_core score a s aggressive =
     fst (try_match_sentence_core_run score a s aggressive)"

text \<open>The windows the matcher scored on the way (the calls of \<^verbatim>\<open>_best_score\<close> on \<open>s.norm\<close>).\<close>

definition scored_windows :: "scorer \<Rightarrow> aligner \<Rightarrow> sentence \<Rightarrow> bool \<Rightarrow> (nat \<times> nat) list" where
  "scored_windows score a s aggressive =
     snd (snd (try_match_sentence_core_run score a s aggressive))"

subsection \<open>\<^verbatim>\<open>_try_match_sentence\<close> (lines 1471-1484)\<close>

definition try_match_sentence :: "scorer \<Rightarrow> aligner \<Rightarrow> sentence \<Rightarrow> bool \<Rightarrow> aligner option" where
  "try_match_sentence score a s aggressive =
     (case try_match_sentence_core score a s aggressive of
        None \<Rightarrow> None
      | Some (st, en, src_win, end_idx) \<Rightarrow>
          let src_win' = (if truthy_str (forced_src a) then forced_src a else src_win)
          in Some (a\<lparr>results := results a @ [(s, Some st, Some en, src_win')],
                     last_start_ms := st,
                     last_end_ms := en,
                     cursor := min (length (words a)) (max (cursor a) end_idx),
                     sent_idx := sent_idx a + 1\<rparr>))"

subsection \<open>\<^verbatim>\<open>_dominant_src\<close> (lines 1289-1314)\<close>

text \<open>
  The dicts \<open>overlap\<close> and \<open>freq\<close> keep insertion order, and \<^verbatim>\<open>max(d.items(), key=...)\<close>
  returns the first entry with the largest value: association lists in insertion order.
\<close>

fun bump :: "pystr \<Rightarrow> 'v::plus \<Rightarrow> (pystr \<times> 'v) list \<Rightarrow> (pystr \<times> 'v) list" where
  "bump key v [] = [(key, v)]"
| "bump key v ((k, x) # rest) =
     (if k = key then (k, x + v) # rest else (k, x) # bump key v rest)"

fun first_max :: "(pystr \<times> 'v::linorder) list \<Rightarrow> pystr option" where
  "first_max [] = None"
| "first_max ((k, x) # rest) =
     (if list_all (\<lambda>p. snd p \<le> x) rest then Some k else first_max rest)"

fun overlap_loop :: "rat \<Rightarrow> rat \<Rightarrow> (word \<times> pystr option) list \<Rightarrow> (pystr \<times> rat) list \<Rightarrow> (pystr \<times> rat) list" where
  "overlap_loop st_s en_s [] overlap = overlap"
| "overlap_loop st_s en_s ((w, sname) # rest) overlap =
     (if \<not> truthy_str sname then overlap_loop st_s en_s rest overlap
      else
        let a = max (w_start w) st_s; b = min (w_end w) en_s
        in if b > a
           then overlap_loop st_s en_s rest
                  (bump (case sname of Some n \<Rightarrow> n | None \<Rightarrow> []) (b - a) overlap)
           else overlap_loop st_s en_s rest overlap)"

fun freq_loop :: "pystr option list \<Rightarrow> (pystr \<times> nat) list \<Rightarrow> (pystr \<times> nat) list" where
  "freq_loop [] freq = freq"
| "freq_loop (sname # rest) freq =
     (if \<not> truthy_str sname then freq_loop rest freq
      else freq_loop rest (bump (case sname of Some n \<Rightarrow> n | None \<Rightarrow> []) 1 freq))"

text \<open>
  Lines 1306-1308: \<^verbatim>\<open>self.words[k]\<close> and \<^verbatim>\<open>self.word_srcs[k]\<close> raise
  \<^verbatim>\<open>IndexError\<close> past the end of their lists.
\<close>

datatype py_error = IndexError

fun crossing_src :: "aligner \<Rightarrow> rat \<Rightarrow> nat list \<Rightarrow> py_error + pystr option option" where
  "crossing_src a st_s [] = Inr None"
| "crossing_src a st_s (k # ks) =
     (if k \<ge> length (words a) then Inl IndexError
      else if w_end (words a ! k) \<ge> st_s
      then (if k \<ge> length (word_srcs a) then Inl IndexError else Inr (Some (word_srcs a ! k)))
      else crossing_src a st_s ks)"

definition dominant_src ::
  "aligner \<Rightarrow> nat \<Rightarrow> nat \<Rightarrow> int option \<Rightarrow> int option \<Rightarrow> py_error + pystr option" where
  "dominant_src a i j st_ms en_ms =
     (case (st_ms, en_ms) of
        (Some st, Some en) \<Rightarrow>
          let st_s = of_int st / 1000; en_s = of_int en / 1000;
              overlap = overlap_loop st_s en_s
                          (zip (slice (words a) i j) (slice (word_srcs a) i j)) []
          in if overlap \<noteq> [] then Inr (first_max overlap)
             else
               (case crossing_src a st_s [i ..< j] of
                  Inl e \<Rightarrow> Inl e
                | Inr (Some src) \<Rightarrow> Inr src
                | Inr None \<Rightarrow> Inr (first_max (freq_loop (slice (word_srcs a) i j) [])))
      | _ \<Rightarrow> Inr None)"

subsection \<open>\<^verbatim>\<open>_ptr_for_time\<close> (lines 1317-1322)\<close>

fun ptr_loop :: "int \<Rightarrow> nat \<Rightarrow> word list \<Rightarrow> nat" where
  "ptr_loop t_ms k [] = k"
| "ptr_loop t_ms k (w # ws) = (if ms_of (w_end w) \<ge> t_ms then k else ptr_loop t_ms (k + 1) ws)"

definition ptr_for_time :: "aligner \<Rightarrow> int \<Rightarrow> nat" where
  "ptr_for_time a t_ms = ptr_loop t_ms 0 (words a)"

subsection \<open>Recovery helpers of \<^verbatim>\<open>main\<close> (lines 2571-2576, 2628-2730)\<close>

text \<open>
  Properties of result lists used below: the entries start at \<open>base\<close> and each next one
  starts where the previous one ends; every entry carries times at least \<open>d\<close> apart.
\<close>

definition tiles_from :: "int \<Rightarrow> result_entry list \<Rightarrow> bool" where
  "tiles_from base new \<longleftrightarrow>
     (new \<noteq> [] \<longrightarrow> r_start (new ! 0) = Some base) \<and>
     (\<forall>j. j + 1 < length new \<longrightarrow> r_start (new ! (j + 1)) = r_end (new ! j))"

definition min_span :: "int \<Rightarrow> result_entry list \<Rightarrow> bool" where
  "min_span d new \<longleftrightarrow>
     (\<forall>e \<in> set new. \<exists>st en. r_start e = Some st \<and> r_end e = Some en \<and> st + d \<le> en)"

fun last_end_ms_for_file :: "result_entry list \<Rightarrow> pystr \<Rightarrow> int \<Rightarrow> int" where
  "last_end_ms_for_file [] fname latest = latest"
| "last_end_ms_for_file ((s, st, en, src) # rest) fname latest =
     (case en of
        Some e \<Rightarrow>
          if src = Some fname \<and> e > latest
          then last_end_ms_for_file rest fname e
          else last_end_ms_for_file rest fname latest
      | None \<Rightarrow> last_end_ms_for_file rest fname latest)"

text \<open>\<^verbatim>\<open>max(1, len((s.text or "").strip()))\<close>.\<close>

definition char_weight :: "sentence \<Rightarrow> int" where
  "char_weight s = max 1 (int (length (py_strip (s_text s))))"

text \<open>
  The loops of lines 2655-2660 and 2709-2714 (the same body):
  \<^verbatim>\<open>for s, dur in zip(pending, durs): st = cur; en = cur + dur; results.append(...); cur = en\<close>.
  The entries appended and the final \<open>cur\<close>.
\<close>

fun spread :: "int \<Rightarrow> pystr \<Rightarrow> (sentence \<times> int) list \<Rightarrow> result_entry list \<times> int" where
  "spread cur audio_name [] = ([], cur)"
| "spread cur audio_name ((s, dur) # rest) =
     (case spread (cur + dur) audio_name rest of
        (entries, cur') \<Rightarrow> ((s, Some cur, Some (cur + dur), Some audio_name) # entries, cur'))"

text \<open>Lines 2639-2640 and 2698-2699: where the first approximated sentence starts.\<close>

definition file_base_start :: "result_entry list \<Rightarrow> pystr \<Rightarrow> int \<Rightarrow> int" where
  "file_base_start rs audio_name file_start_ms =
     max file_start_ms (last_end_ms_for_file rs audio_name file_start_ms + 1)"

text \<open>Lines 2641-2642: clamped to the end of the file.\<close>

definition approx_start :: "result_entry list \<Rightarrow> pystr \<Rightarrow> int \<Rightarrow> int \<Rightarrow> int" where
  "approx_start rs audio_name file_start_ms file_end_ms =
     (let base_start = file_base_start rs audio_name file_start_ms
      in if base_start > file_end_ms then file_end_ms else base_start)"

text \<open>
  \<^verbatim>\<open>_approximate_missing_chunk\<close>, lines 2643-2660: the pending sentences, their
  durations and the entries appended for them.
\<close>

definition approx_pending :: "aligner \<Rightarrow> sentence list \<Rightarrow> nat \<Rightarrow> sentence list" where
  "approx_pending a sentences_list chunk_end = slice sentences_list (sent_idx a) chunk_end"

definition approx_remaining :: "aligner \<Rightarrow> pystr \<Rightarrow> int \<Rightarrow> int \<Rightarrow> int" where
  "approx_remaining a audio_name file_start_ms file_end_ms =
     max 0 (file_end_ms - approx_start (results a) audio_name file_start_ms file_end_ms)"

definition approx_durs :: "aligner \<Rightarrow> sentence list \<Rightarrow> nat \<Rightarrow> pystr \<Rightarrow> int \<Rightarrow> int \<Rightarrow> int list" where
  "approx_durs a sentences_list chunk_end audio_name file_start_ms file_end_ms =
     weighted_durations (approx_remaining a audio_name file_start_ms file_end_ms)
       (map char_weight (approx_pending a sentences_list chunk_end)) MIN_MATCH_MS"

definition approx_entries ::
  "aligner \<Rightarrow> sentence list \<Rightarrow> nat \<Rightarrow> pystr \<Rightarrow> int \<Rightarrow> int \<Rightarrow> result_entry list" where
  "approx_entries a sentences_list chunk_end audio_name file_start_ms file_end_ms =
     fst (spread (approx_start (results a) audio_name file_start_ms file_end_ms) audio_name
            (zip (approx_pending a sentences_list chunk_end)
                 (approx_durs a sentences_list chunk_end audio_name file_start_ms file_end_ms)))"

text \<open>
  \<^verbatim>\<open>_approximate_missing_chunk\<close>. Lines 2648-2653 only print a warning and are left
  out. \<open>None\<close> is the return value \<^verbatim>\<open>False\<close> (the aligner is untouched), \<open>Some\<close> the
  aligner after a return of \<^verbatim>\<open>True\<close>. The entries just appended carry times, so
  \<^verbatim>\<open>results[-1][1]\<close> is an integer there.
\<close>

definition approximate_missing_chunk ::
  "aligner \<Rightarrow> sentence list \<Rightarrow> nat option \<Rightarrow> pystr \<Rightarrow> int \<Rightarrow> int \<Rightarrow> aligner option" where
  "approximate_missing_chunk a sentences_list chunk_end_idx audio_name file_start_ms file_end_ms =
     (case chunk_end_idx of
        None \<Rightarrow> None
      | Some chunk_end \<Rightarrow>
          if sent_idx a \<ge> chunk_end then None
          else if approx_pending a sentences_list chunk_end = [] then None
          else
            let rs = results a @
                     approx_entries a sentences_list chunk_end audio_name file_start_ms file_end_ms
            in if rs = [] then Some (a\<lparr>sent_idx := chunk_end\<rparr>)
               else
                 let rs' = (case last rs of (s_last, st_last, en_last, src_last) \<Rightarrow>
                              butlast rs @ [(s_last, st_last, Some file_end_ms, src_last)]);
                     a1 = a\<lparr>results := rs', sent_idx := chunk_end,
                            last_start_ms := (case r_start (last rs') of
                                               Some v \<Rightarrow> v | None \<Rightarrow> last_start_ms a),
                            last_end_ms := file_end_ms\<rparr>
                 in Some (a1\<lparr>cursor := ptr_for_time a1 (last_end_ms a1 + 1)\<rparr>))"

text \<open>
  \<^verbatim>\<open>_recover_with_anchor\<close>. The search of lines 2688-2692 reads
  \<^verbatim>\<open>sentences_list[j]\<close>, which raises \<^verbatim>\<open>IndexError\<close> past the end of the list.
\<close>

fun find_anchor ::
  "scorer \<Rightarrow> aligner \<Rightarrow> sentence list \<Rightarrow> nat list \<Rightarrow> py_error + (nat \<times> hit) option" where
  "find_anchor score a sentences_list [] = Inr None"
| "find_anchor score a sentences_list (j # js) =
     (if j \<ge> length sentences_list then Inl IndexError
      else
        (case try_match_sentence_core score a (sentences_list ! j) True of
           Some h \<Rightarrow> Inr (Some (j, h))
         | None \<Rightarrow> find_anchor score a sentences_list js))"

text \<open>Lines 2700-2706: where the anchor starts once the gap has its minimum room.\<close>

definition gap_anchor_start :: "int \<Rightarrow> nat \<Rightarrow> int \<Rightarrow> int \<Rightarrow> int" where
  "gap_anchor_start base_start n_pending st file_end_ms =
     (let anchor_start = max base_start st;
          min_total = MIN_MATCH_MS * int n_pending
      in if n_pending \<noteq> 0 \<and> anchor_start - base_start < min_total
         then min file_end_ms (base_start + min_total) else anchor_start)"

text \<open>Lines 2706-2716: the gap entries and the position \<open>cur\<close> after them.\<close>

definition gap_spread :: "int \<Rightarrow> int \<Rightarrow> sentence list \<Rightarrow> pystr \<Rightarrow> result_entry list \<times> int" where
  "gap_spread base_start anchor_start pending audio_name =
     (if pending \<noteq> [] then
        (let gap_ms = max 0 (anchor_start - base_start);
             weights = map char_weight pending;
             durs = weighted_durations gap_ms weights MIN_MATCH_MS
         in spread base_start audio_name (zip pending durs))
      else ([], base_start))"

text \<open>Lines 2718-2723: the anchor's own times.\<close>

definition anchor_commit :: "int \<Rightarrow> int \<Rightarrow> int \<Rightarrow> int \<Rightarrow> int \<Rightarrow> int \<Rightarrow> int \<times> int" where
  "anchor_commit anchor_start cur st en file_start_ms file_end_ms =
     (let st1 = max (max anchor_start st) cur;
          en1 = max en (st1 + MIN_MATCH_MS)
      in if en1 > file_end_ms then
           (let en2 = file_end_ms
            in (if en2 < st1 then max file_start_ms (en2 - MIN_MATCH_MS) else st1, en2))
         else (st1, en1))"

definition recover_with_anchor ::
  "scorer \<Rightarrow> aligner \<Rightarrow> sentence list \<Rightarrow> nat option \<Rightarrow> pystr \<Rightarrow> int \<Rightarrow> int \<Rightarrow> nat \<Rightarrow>
   py_error + aligner option" where
  "recover_with_anchor score a sentences_list chunk_end_idx audio_name file_start_ms file_end_ms lookahead =
     (case chunk_end_idx of
        None \<Rightarrow> Inr None
      | Some chunk_end \<Rightarrow>
          let start_idx = sent_idx a in
          if start_idx \<ge> chunk_end then Inr None
          else
            let max_idx = min chunk_end (start_idx + max 1 lookahead + 1) in
            (case find_anchor score a sentences_list [start_idx + 1 ..< max_idx] of
               Inl e \<Rightarrow> Inl e
             | Inr None \<Rightarrow> Inr None
             | Inr (Some (anchor_idx, (st, en, src_win, end_idx))) \<Rightarrow>
                 let base_start = file_base_start (results a) audio_name file_start_ms;
                     pending = slice sentences_list start_idx anchor_idx;
                     anchor_start = gap_anchor_start base_start (length pending) st file_end_ms;
                     (entries, cur) = gap_spread base_start anchor_start pending audio_name;
                     (st2, en2) = anchor_commit anchor_start cur st en file_start_ms file_end_ms
                 in Inr (Some (a\<lparr>results := results a @ entries @
                                     [(sentences_list ! anchor_idx, Some st2, Some en2, Some audio_name)],
                                  sent_idx := anchor_idx + 1,
                                  last_start_ms := st2,
                                  last_end_ms := en2,
                                  cursor := min (length (words a)) (max (cursor a) end_idx)\<rparr>))))"

subsection \<open>\<^verbatim>\<open>_prime_from_existing\<close> (lines 1956-1991)\<close>

text \<open>
  The loop of lines 1972-1985 over the stored items; it returns the aligner and the
  index \<open>k\<close> at which it stopped.
\<close>

fun prime_loop :: "aligner \<Rightarrow> nat \<Rightarrow> (json_item \<times> sentence) list \<Rightarrow> aligner \<times> nat" where
  "prime_loop a k [] = (a, k)"
| "prime_loop a k ((item, sent) # rest) =
     (if py_strip (j_text item) \<noteq> py_strip (s_text sent) then (a, k)
      else
        (case j_start item of
           None \<Rightarrow> (a, k)
         | Some st \<Rightarrow>
             let en_eff = (case j_end item of Some en \<Rightarrow> en | None \<Rightarrow> st)
             in prime_loop
                  (a\<lparr>results := results a @ [(sent, Some st, Some en_eff, j_audio item)],
                     last_start_ms := st, last_end_ms := en_eff\<rparr>)
                  (k + 1) rest))"

text \<open>What the loop appends for a stored item, and when it goes on.\<close>

definition primable :: "json_item \<times> sentence \<Rightarrow> bool" where
  "primable p = (py_strip (j_text (fst p)) = py_strip (s_text (snd p)) \<and> j_start (fst p) \<noteq> None)"

definition primed_entry :: "json_item \<times> sentence \<Rightarrow> result_entry" where
  "primed_entry p =
     (snd p, j_start (fst p),
      (case j_end (fst p) of Some en \<Rightarrow> Some en | None \<Rightarrow> j_start (fst p)),
      j_audio (fst p))"

definition prime_from_existing :: "json_item list \<Rightarrow> sentence list \<Rightarrow> aligner \<Rightarrow> aligner" where
  "prime_from_existing items ss a =
     (case prime_loop a 0 (zip items ss) of
        (a1, k) \<Rightarrow>
          let a2 = a1\<lparr>sent_idx := k\<rparr>
          in a2\<lparr>cursor := ptr_for_time a2 (last_end_ms a2 + 1)\<rparr>)"

section \<open>The balanced chunker (lines 314-482 and 848-983)\<close>

subsection \<open>Character classes and string searches\<close>











subsection \<open>Bracket tags (lines 318-361)\<close>








subsection \<open>\<^verbatim>\<open>_safe_break_index\<close> and \<^verbatim>\<open>_find_break\<close> (lines 849-884)\<close>









subsection \<open>\<^verbatim>\<open>_split_into_sentences_with_paras\<close> (lines 887-915)\<close>














subsection \<open>Overlong sentences (lines 424-436 and 925-941)\<close>





subsection \<open>The dynamic program (lines 438-482 and 943-983, the same code)\<close>










text \<open>Where the chunk that starts at sentence \<open>i\<close> ends.\<close>

definition chunk_end :: "nat \<Rightarrow> int list \<Rightarrow> nat \<Rightarrow> nat" where
  "chunk_end n next_break i =
     (let j = next_break ! i in if j = - 1 \<or> j \<le> int i then min n (i + 1) else nat j)"




subsection \<open>\<^verbatim>\<open>split_balanced\<close> (lines 419-482) and \<^verbatim>\<open>split_balanced_tts\<close> (lines 918-983)\<close>



subsection \<open>Example inputs\<close>

text \<open>
  A stand-in for \<^verbatim>\<open>_best_score\<close> on the examples: 100 on equal strings (as every
  rapidfuzz ratio is) and 0 otherwise. The examples only compare strings that are equal
  or share no letter, where the library's scores are on the same side of the thresholds.
\<close>

definition exact_scorer :: scorer where
  "exact_scorer x y = (if x = y then 100 else 0)"

definition mk_word :: "string \<Rightarrow> rat \<Rightarrow> rat \<Rightarrow> word" where
  "mk_word t b e = \<lparr>w_text = str t, w_start = b, w_end = e\<rparr>"

text \<open>
  An aligner holding the given words, all from one source. \<^verbatim>\<open>extend_words_and_align\<close>
  stores \<^verbatim>\<open>unidecode(w.text.lower())\<close> in \<open>word_texts\<close> (line 1507); the words of the
  examples are lower-case ASCII, which that leaves unchanged.
\<close>

definition with_words :: "aligner \<Rightarrow> word list \<Rightarrow> pystr option \<Rightarrow> aligner" where
  "with_words a ws src =
     a\<lparr>words := ws, word_texts := map w_text ws, word_srcs := map (\<lambda>w. src) ws\<rparr>"

text \<open>A sentence of 35 tokens \<open>a\<close> and 42 words \<open>b\<close>: nothing matches.\<close>

definition ex_long_sentence :: sentence where
  "ex_long_sentence =
     \<lparr>s_text = join_space (replicate 35 (str ''a'')), s_norm = join_space (replicate 35 (str ''a'')),
      s_tokens = replicate 35 (str ''a''), s_placeholder = False\<rparr>"

definition ex_long_aligner :: aligner where
  "ex_long_aligner =
     with_words (init_aligner [ex_long_sentence]) (replicate 42 (mk_word ''b'' 0 0)) (Some (str ''a.wav''))"

text \<open>The sentence \<open>hello\<close> against the single word \<open>hello\<close> spoken from 0 s to 0.5 s.\<close>

definition ex_hello :: sentence where
  "ex_hello = \<lparr>s_text = str ''Hello'', s_norm = str ''hello'', s_tokens = [str ''hello''],
                s_placeholder = False\<rparr>"

definition ex_hello_aligner :: aligner where
  "ex_hello_aligner =
     with_words (init_aligner [ex_hello]) [mk_word ''hello'' 0 (1 / 2)] (Some (str ''a.wav''))"

text \<open>A sentence with the given text and no tokens of interest, for the recovery paths.\<close>

definition ex_sentence :: "string \<Rightarrow> sentence" where
  "ex_sentence t = \<lparr>s_text = str t, s_norm = str t, s_tokens = [str t], s_placeholder = False\<rparr>"

text \<open>
  Three sentences for a file \<open>b.wav\<close> of 2 s whose words \<open>alpha\<close> (1.85 s to 1.9 s) and
  \<open>gamma\<close> (1.9 s to 1.95 s) are short and close to the end of the file; nothing was
  recognised for the middle sentence. The orchestrator sets \<open>forced_src\<close> to the file's
  name before it aligns (line 2805).
\<close>

definition ex_back_sentences :: "sentence list" where
  "ex_back_sentences = [ex_sentence ''alpha'', ex_sentence ''zzz'', ex_sentence ''gamma'']"

definition ex_back_aligner :: aligner where
  "ex_back_aligner =
     (with_words (init_aligner ex_back_sentences)
        [mk_word ''alpha'' (37 / 20) (19 / 10), mk_word ''gamma'' (19 / 10) (39 / 20)]
        (Some (str ''b.wav'')))\<lparr>forced_src := Some (str ''b.wav'')\<rparr>"

section \<open>Properties\<close>

subsection \<open>Rounding and the duration split\<close>

lemma py_round_upper: "of_int (py_round x) \<le> x + 1 / 2"
  unfolding py_round_def Let_def by (auto; linarith)

lemma py_round_lower: "x - 1 / 2 \<le> of_int (py_round x)"
  unfolding py_round_def Let_def by (auto; linarith)

lemma py_round_ge: "of_int k \<le> x \<Longrightarrow> k \<le> py_round x"
  unfolding py_round_def Let_def by (auto simp: le_floor_iff; linarith)

lemma py_round_of_int [simp]: "py_round (of_int k) = k"
  unfolding py_round_def Let_def by simp

lemma drift_loop_stop: "diff = 0 \<or> \<not> i < n * 2 \<Longrightarrow> drift_loop step n i out diff = out"
  by (subst drift_loop.simps) auto

lemma drift_loop_take:
  "diff \<noteq> 0 \<Longrightarrow> i < n * 2 \<Longrightarrow> 0 \<le> out ! (i mod n) + step \<Longrightarrow>
   drift_loop step n i out diff =
   drift_loop step n (i + 1) (out[i mod n := out ! (i mod n) + step]) (diff - step)"
  by (subst drift_loop.simps) (simp add: Let_def)

lemma drift_loop_skip:
  "diff \<noteq> 0 \<Longrightarrow> i < n * 2 \<Longrightarrow> \<not> 0 \<le> out ! (i mod n) + step \<Longrightarrow>
   drift_loop step n i out diff = drift_loop step n (i + 1) out diff"
  by (subst drift_loop.simps) (simp add: Let_def)

lemma length_drift_loop [simp]: "length (drift_loop step n i out diff) = length out"
proof (induction step n i out diff rule: drift_loop.induct)
  case (1 step n i out diff)
  show ?case
  proof (cases "diff \<noteq> 0 \<and> i < n * 2")
    case False
    then show ?thesis by (simp add: drift_loop_stop)
  next
    case True
    show ?thesis
    proof (cases "0 \<le> out ! (i mod n) + step")
      case g: True
      then show ?thesis using True "1.IH"(1)[OF True refl g] by (simp add: drift_loop_take)
    next
      case g: False
      then show ?thesis using True "1.IH"(2)[OF True refl g] by (simp add: drift_loop_skip)
    qed
  qed
qed

lemma sum_list_update_int:
  "i < length xs \<Longrightarrow> sum_list (xs[i := v]) = sum_list xs - xs ! i + (v::int)"
  by (induction xs arbitrary: i) (auto split: nat.splits)

lemma drift_first_pass:
  "length out = n \<Longrightarrow> i + k \<le> n \<Longrightarrow> diff = step * int k \<Longrightarrow> step = 1 \<or> step = - 1 \<Longrightarrow>
   (\<forall>j. i \<le> j \<and> j < n \<longrightarrow> 0 \<le> out ! j + step) \<Longrightarrow>
   sum_list (drift_loop step n i out diff) = sum_list out + diff \<and>
   (\<forall>j<n. (j < i \<longrightarrow> drift_loop step n i out diff ! j = out ! j) \<and>
          \<bar>drift_loop step n i out diff ! j - out ! j\<bar> \<le> 1)"
proof (induction k arbitrary: i out diff)
  case 0
  then have "drift_loop step n i out diff = out" by (simp add: drift_loop_stop)
  then show ?case using 0 by simp
next
  case (Suc k)
  have i_lt: "i < n" using Suc.prems by simp
  have dne: "diff \<noteq> 0" using Suc.prems by auto
  have guard: "0 \<le> out ! (i mod n) + step" using Suc.prems i_lt by simp
  let ?out' = "out[i := out ! i + step]"
  let ?r = "drift_loop step n (i + 1) ?out' (diff - step)"
  have unf: "drift_loop step n i out diff = ?r"
    using drift_loop_take[OF dne _ guard] i_lt by simp
  have IH: "sum_list ?r = sum_list ?out' + (diff - step) \<and>
   (\<forall>j<n. (j < i + 1 \<longrightarrow> ?r ! j = ?out' ! j) \<and> \<bar>?r ! j - ?out' ! j\<bar> \<le> 1)"
  proof (rule Suc.IH)
    show "length ?out' = n" using Suc.prems by simp
    show "i + 1 + k \<le> n" using Suc.prems by simp
    show "diff - step = step * int k" using Suc.prems by (simp add: algebra_simps)
    show "step = 1 \<or> step = - 1" using Suc.prems by simp
    show "\<forall>j. i + 1 \<le> j \<and> j < n \<longrightarrow> 0 \<le> ?out' ! j + step" using Suc.prems by simp
  qed
  have len: "length out = n" using Suc.prems by simp
  have s: "sum_list ?r = sum_list out + diff"
    using IH i_lt len by (simp add: sum_list_update_int)
  have e: "\<forall>j<n. (j < i \<longrightarrow> ?r ! j = out ! j) \<and> \<bar>?r ! j - out ! j\<bar> \<le> 1"
  proof (intro allI impI)
    fix j assume j: "j < n"
    from IH j have a: "j < i + 1 \<longrightarrow> ?r ! j = ?out' ! j" and b: "\<bar>?r ! j - ?out' ! j\<bar> \<le> 1"
      by auto
    show "(j < i \<longrightarrow> ?r ! j = out ! j) \<and> \<bar>?r ! j - out ! j\<bar> \<le> 1"
    proof (cases "j = i")
      case True
      then have "?r ! j = out ! i + step" using a len i_lt by simp
      then show ?thesis using True Suc.prems(4) by auto
    next
      case False
      then have "?out' ! j = out ! j" by simp
      then show ?thesis using a b by auto
    qed
  qed
  show ?case unfolding unf using s e by blast
qed

lemma drift_up:
  "step = 1 \<Longrightarrow> 0 \<le> diff \<Longrightarrow> length out = n \<Longrightarrow>
   sum_list (drift_loop step n i out diff) \<le> sum_list out + diff \<and>
   (\<forall>j<n. out ! j \<le> drift_loop step n i out diff ! j)"
proof (induction step n i out diff rule: drift_loop.induct)
  case (1 step n i out diff)
  show ?case
  proof (cases "diff \<noteq> 0 \<and> i < n * 2")
    case False
    then have "drift_loop step n i out diff = out" by (auto simp: drift_loop_stop)
    then show ?thesis using "1.prems" by simp
  next
    case True
    then have npos: "0 < n" by auto
    then have idx: "i mod n < n" by simp
    show ?thesis
    proof (cases "0 \<le> out ! (i mod n) + step")
      case g: True
      let ?out' = "out[i mod n := out ! (i mod n) + step]"
      let ?r = "drift_loop step n (i + 1) ?out' (diff - step)"
      have unf: "drift_loop step n i out diff = ?r"
        using True g by (simp add: drift_loop_take)
      have IH: "sum_list ?r \<le> sum_list ?out' + (diff - step) \<and> (\<forall>j<n. ?out' ! j \<le> ?r ! j)"
        using "1.IH"(1)[OF True refl g] "1.prems" True by simp
      have mono: "\<forall>j<n. out ! j \<le> ?out' ! j"
        using "1.prems" by (simp add: nth_list_update)
      have s: "sum_list ?out' = sum_list out + step"
        using idx "1.prems" by (simp add: sum_list_update_int)
      have a: "sum_list ?r \<le> sum_list out + diff" using IH s by simp
      have b: "\<forall>j<n. out ! j \<le> ?r ! j" using IH mono order_trans by blast
      show ?thesis unfolding unf using a b by blast
    next
      case g: False
      have unf: "drift_loop step n i out diff = drift_loop step n (i + 1) out diff"
        using True g by (simp add: drift_loop_skip)
      show ?thesis unfolding unf using "1.IH"(2)[OF True refl g] "1.prems" by simp
    qed
  qed
qed

lemma length_drift_fix [simp]: "length (drift_fix t out) = length out"
  by (simp add: drift_fix_def Let_def)

lemma drift_fix_exact:
  assumes "\<bar>t - sum_list out\<bar> \<le> int (length out)" and "\<forall>x\<in>set out. 1 \<le> x"
  shows "sum_list (drift_fix t out) = t \<and>
         (\<forall>j<length out. \<bar>drift_fix t out ! j - out ! j\<bar> \<le> 1)"
proof (cases "t - sum_list out = 0")
  case True
  then show ?thesis by (simp add: drift_fix_def)
next
  case False
  define diff where "diff = t - sum_list out"
  define step :: int where "step = (if diff > 0 then 1 else - 1)"
  define k where "k = nat \<bar>diff\<bar>"
  have g: "\<forall>j. 0 \<le> j \<and> j < length out \<longrightarrow> 0 \<le> out ! j + step"
  proof (intro allI impI)
    fix j assume "0 \<le> j \<and> j < length out"
    then have "1 \<le> out ! j" using assms(2) by simp
    then show "0 \<le> out ! j + step" by (simp add: step_def)
  qed
  have "sum_list (drift_loop step (length out) 0 out diff) = sum_list out + diff \<and>
   (\<forall>j<length out. (j < 0 \<longrightarrow> drift_loop step (length out) 0 out diff ! j = out ! j) \<and>
          \<bar>drift_loop step (length out) 0 out diff ! j - out ! j\<bar> \<le> 1)"
  proof (rule drift_first_pass[where k = k])
    show "length out = length out" ..
    show "0 + k \<le> length out" using assms(1) by (simp add: k_def diff_def)
    show "diff = step * int k" by (simp add: step_def k_def)
    show "step = 1 \<or> step = - 1" by (simp add: step_def)
    show "\<forall>j. 0 \<le> j \<and> j < length out \<longrightarrow> 0 \<le> out ! j + step" by (rule g)
  qed
  moreover have "drift_fix t out = drift_loop step (length out) 0 out diff"
    using False by (simp add: drift_fix_def diff_def step_def Let_def)
  ultimately show ?thesis by (simp add: diff_def)
qed

lemma drift_fix_up:
  assumes "sum_list out \<le> t"
  shows "sum_list (drift_fix t out) \<le> t \<and> (\<forall>j<length out. out ! j \<le> drift_fix t out ! j)"
proof (cases "t - sum_list out = 0")
  case True
  then show ?thesis by (simp add: drift_fix_def)
next
  case False
  then have pos: "0 < t - sum_list out" using assms by simp
  have "sum_list (drift_loop 1 (length out) 0 out (t - sum_list out)) \<le> sum_list out + (t - sum_list out) \<and>
   (\<forall>j<length out. out ! j \<le> drift_loop 1 (length out) 0 out (t - sum_list out) ! j)"
    by (rule drift_up) (use pos in simp_all)
  moreover have "drift_fix t out = drift_loop 1 (length out) 0 out (t - sum_list out)"
    using pos by (simp add: drift_fix_def Let_def)
  ultimately show ?thesis by simp
qed

lemma length_clamp_fix [simp]: "length (clamp_fix t out) = length out"
  by (simp add: clamp_fix_def Let_def)

lemma sum_list_clamp_fix: "0 < t \<Longrightarrow> 0 < length out \<Longrightarrow> sum_list (clamp_fix t out) = t"
  by (simp add: clamp_fix_def Let_def sum_list_update_int)


lemma clamp_id: "\<forall>x\<in>set out. 1 \<le> x \<Longrightarrow> map (\<lambda>x. if x < 1 then 1 else x) out = (out :: int list)"
  by (induction out) auto

lemma clamp_fix_id:
  "\<forall>x\<in>set out. 1 \<le> x \<Longrightarrow> sum_list out = t \<Longrightarrow> clamp_fix t out = out"
  by (simp add: clamp_fix_def Let_def clamp_id)

lemma clamp_fix_all_ge:
  assumes "\<forall>x\<in>set out. 1 \<le> x" and "sum_list out \<le> t" and "j < length out"
  shows "1 \<le> clamp_fix t out ! j"
proof (cases "0 < t \<and> sum_list out \<noteq> t")
  case False
  have a: "1 \<le> out ! j" using assms(1,3) by simp
  from False have "clamp_fix t out = out"
    using assms(1) by (auto simp: clamp_fix_def Let_def clamp_id)
  then show ?thesis using a by simp
next
  case True
  let ?n = "length out - 1"
  have e: "clamp_fix t out = out[?n := out ! ?n + (t - sum_list out)]"
    using True assms(1) by (simp add: clamp_fix_def Let_def clamp_id)
  have a: "1 \<le> out ! j" using assms(1,3) by simp
  have b: "1 \<le> out ! ?n + (t - sum_list out)"
  proof -
    have "?n < length out" using assms(3) by simp
    then have "1 \<le> out ! ?n" using assms(1) nth_mem by blast
    then show ?thesis using assms(2) by linarith
  qed
  show ?thesis unfolding e using a b assms(3) by (cases "j = ?n") simp_all
qed


lemma sum_list_raw:
  "sum_list (map (\<lambda>w. m + r * (of_int w / W)) ws) =
     of_nat (length ws) * m + r * (of_int (sum_list ws) / (W::rat))"
  by (induction ws) (simp_all add: algebra_simps add_divide_distrib)

lemma sum_list_round_upper:
  "of_int (sum_list (map py_round xs)) \<le> sum_list xs + of_nat (length xs) / 2"
proof (induction xs)
  case Nil
  show ?case by simp
next
  case (Cons x xs)
  have "of_int (py_round x) \<le> x + 1 / 2" by (rule py_round_upper)
  then show ?case using Cons by (simp add: field_simps)
qed

lemma sum_list_round_lower:
  "sum_list xs - of_nat (length xs) / 2 \<le> of_int (sum_list (map py_round xs))"
proof (induction xs)
  case Nil
  show ?case by simp
next
  case (Cons x xs)
  have "x - 1 / 2 \<le> of_int (py_round x)" by (rule py_round_lower)
  then show ?case using Cons by (simp add: field_simps)
qed

lemma length_raw_shares [simp]: "length (raw_shares t ws m) = length ws"
  by (simp add: raw_shares_def Let_def)

lemma length_weighted_durations: "length (weighted_durations t ws m) = length ws"
  by (simp add: weighted_durations_def Let_def)

lemma sum_list_weighted_durations:
  "0 < t \<Longrightarrow> ws \<noteq> [] \<Longrightarrow> sum_list (weighted_durations t ws m) = t"
  by (simp add: weighted_durations_def Let_def sum_list_clamp_fix)

lemma raw_shares_roomy:
  assumes "of_int m * of_nat (length ws) \<le> (of_int t :: rat)"
  shows "raw_shares t ws m =
     map (\<lambda>w. of_int m + (of_int t - of_int m * of_nat (length ws)) *
            (of_int w / (if sum_list ws = 0 then 1 else of_int (sum_list ws)))) ws"
  using assms by (simp add: raw_shares_def Let_def max_def)

lemma raw_shares_tight:
  assumes "(of_int t :: rat) < of_int m * of_nat (length ws)"
  shows "raw_shares t ws m = map (\<lambda>w. of_int t / of_nat (length ws)) ws"
proof (cases "ws = []")
  case True
  then show ?thesis by (simp add: raw_shares_def)
next
  case False
  then show ?thesis using assms by (simp add: raw_shares_def Let_def)
qed

lemma sum_list_const_map: "sum_list (map (\<lambda>w. c) ws) = of_nat (length ws) * (c::'a::semiring_1)"
  by (induction ws) (simp_all add: algebra_simps)

lemma sum_list_raw_shares_le:
  assumes "0 < t" and "ws \<noteq> []" and "\<forall>w\<in>set ws. 0 \<le> w"
  shows "sum_list (raw_shares t ws m) \<le> of_int t"
proof (cases "of_int m * of_nat (length ws) \<le> (of_int t :: rat)")
  case True
  show ?thesis
  proof (cases "sum_list ws = 0")
    case z: True
    show ?thesis unfolding raw_shares_roomy[OF True] sum_list_raw
      using True z by (simp add: mult.commute)
  next
    case nz: False
    show ?thesis unfolding raw_shares_roomy[OF True] sum_list_raw
      using True nz by (simp add: mult.commute)
  qed
next
  case False
  then have lt: "(of_int t :: rat) < of_int m * of_nat (length ws)" by simp
  have "length ws \<noteq> 0" using assms(2) by simp
  then show ?thesis by (simp add: raw_shares_tight[OF lt] sum_list_const_map)
qed

lemma sum_list_raw_shares_eq:
  assumes "0 < t" and "ws \<noteq> []" and "sum_list ws \<noteq> 0"
  shows "sum_list (raw_shares t ws m) = of_int t"
proof (cases "of_int m * of_nat (length ws) \<le> (of_int t :: rat)")
  case True
  show ?thesis unfolding raw_shares_roomy[OF True] sum_list_raw
    using assms(3) by (simp add: mult.commute)
next
  case False
  then have lt: "(of_int t :: rat) < of_int m * of_nat (length ws)" by simp
  have "length ws \<noteq> 0" using assms(2) by simp
  then show ?thesis by (simp add: raw_shares_tight[OF lt] sum_list_const_map)
qed

lemma sum_list_nonneg_int: "\<forall>w\<in>set ws. 0 \<le> w \<Longrightarrow> 0 \<le> (sum_list ws :: int)"
  by (induction ws) auto

lemma raw_shares_ge_one:
  assumes "int (length ws) \<le> t" and "\<forall>w\<in>set ws. 0 \<le> w" and "1 \<le> m" and "x \<in> set (raw_shares t ws m)"
  shows "1 \<le> x"
proof (cases "of_int m * of_nat (length ws) \<le> (of_int t :: rat)")
  case True
  from assms(4) obtain w where w: "w \<in> set ws" and
    x: "x = of_int m + (of_int t - of_int m * of_nat (length ws)) *
            (of_int w / (if sum_list ws = 0 then 1 else of_int (sum_list ws)))"
    by (auto simp: raw_shares_roomy[OF True])
  have sw: "0 \<le> sum_list ws" using assms(2) by (rule sum_list_nonneg_int)
  have "0 \<le> (of_int t :: rat) - of_int m * of_nat (length ws)" using True by simp
  moreover have "0 \<le> (of_int w :: rat) / (if sum_list ws = 0 then 1 else of_int (sum_list ws))"
    using w assms(2) sw by (auto intro!: divide_nonneg_nonneg)
  ultimately have "0 \<le> (of_int t - of_int m * of_nat (length ws)) *
            ((of_int w :: rat) / (if sum_list ws = 0 then 1 else of_int (sum_list ws)))"
    by (rule mult_nonneg_nonneg)
  moreover have "(1::rat) \<le> of_int m" using assms(3) by simp
  ultimately show ?thesis unfolding x by linarith
next
  case False
  then have lt: "(of_int t :: rat) < of_int m * of_nat (length ws)" by simp
  then have n0: "length ws \<noteq> 0" using assms(1) by auto
  from assms(4) have x: "x = of_int t / of_nat (length ws)"
    by (auto simp: raw_shares_tight[OF lt])
  have "(of_nat (length ws) :: rat) \<le> of_int t"
    using assms(1) by (metis of_int_le_iff of_int_of_nat_eq)
  then show ?thesis unfolding x using n0 by (simp add: le_divide_eq)
qed

lemma rounded_shares_ge_two:
  assumes "int (length ws) \<le> t" and "2 \<le> m"
    and "t < sum_list (map py_round (raw_shares t ws m))"
    and "\<forall>w\<in>set ws. 0 \<le> w"
    and "y \<in> set (map py_round (raw_shares t ws m))"
  shows "2 \<le> y"
proof (cases "of_int m * of_nat (length ws) \<le> (of_int t :: rat)")
  case True
  from assms(5) obtain w where w: "w \<in> set ws" and
    y: "y = py_round (of_int m + (of_int t - of_int m * of_nat (length ws)) *
            (of_int w / (if sum_list ws = 0 then 1 else of_int (sum_list ws))))"
    by (auto simp: raw_shares_roomy[OF True])
  have sw: "0 \<le> sum_list ws" using assms(4) by (rule sum_list_nonneg_int)
  have "0 \<le> (of_int t :: rat) - of_int m * of_nat (length ws)" using True by simp
  moreover have "0 \<le> (of_int w :: rat) / (if sum_list ws = 0 then 1 else of_int (sum_list ws))"
    using w assms(4) sw by (auto intro!: divide_nonneg_nonneg)
  ultimately have "0 \<le> (of_int t - of_int m * of_nat (length ws)) *
            ((of_int w :: rat) / (if sum_list ws = 0 then 1 else of_int (sum_list ws)))"
    by (rule mult_nonneg_nonneg)
  moreover have "(of_int 2 :: rat) \<le> of_int m" using assms(2) by simp
  ultimately have "(of_int 2 :: rat) \<le> of_int m + (of_int t - of_int m * of_nat (length ws)) *
            ((of_int w :: rat) / (if sum_list ws = 0 then 1 else of_int (sum_list ws)))"
    by linarith
  then show ?thesis unfolding y by (rule py_round_ge)
next
  case False
  then have lt: "(of_int t :: rat) < of_int m * of_nat (length ws)" by simp
  then have n0: "length ws \<noteq> 0" using assms(1) by auto
  define q where "q = py_round (of_int t / of_nat (length ws))"
  have y: "y = q" using assms(5) by (auto simp: raw_shares_tight[OF lt] q_def)
  have "sum_list (map py_round (raw_shares t ws m)) = int (length ws) * q"
    by (simp add: raw_shares_tight[OF lt] q_def comp_def sum_list_const_map)
  then have "t < int (length ws) * q" using assms(3) by simp
  then have "int (length ws) * 1 < int (length ws) * q" using assms(1) by simp
  then have "1 < q" using n0 by (simp add: mult_less_cancel_left)
  then show ?thesis using y by simp
qed

lemma weighted_durations_unfold:
  "0 < t \<Longrightarrow> ws \<noteq> [] \<Longrightarrow>
   weighted_durations t ws m = clamp_fix t (drift_fix t (map py_round (raw_shares t ws m)))"
  by (simp add: weighted_durations_def Let_def)

lemma weighted_durations_all_ge:
  assumes "ws \<noteq> []" and "int (length ws) \<le> t" and "\<forall>w\<in>set ws. 0 \<le> w" and "2 \<le> m"
    and "j < length ws"
  shows "1 \<le> weighted_durations t ws m ! j"
proof -
  have tpos: "0 < t" using assms(1,2) by (cases ws) auto
  define out where "out = map py_round (raw_shares t ws m)"
  have len: "length out = length ws" by (simp add: out_def)
  have out_ge: "\<forall>x\<in>set out. 1 \<le> x"
  proof
    fix x assume "x \<in> set out"
    then obtain r where r: "r \<in> set (raw_shares t ws m)" and x: "x = py_round r"
      by (auto simp: out_def)
    have "(of_int 1 :: rat) \<le> r"
      using raw_shares_ge_one[OF assms(2,3) _ r] assms(4) by simp
    then show "1 \<le> x" unfolding x by (rule py_round_ge)
  qed
  have wd: "weighted_durations t ws m = clamp_fix t (drift_fix t out)"
    using weighted_durations_unfold[OF tpos assms(1)] by (simp add: out_def)
  show ?thesis
  proof (cases "sum_list out \<le> t")
    case True
    have up: "sum_list (drift_fix t out) \<le> t \<and> (\<forall>j<length out. out ! j \<le> drift_fix t out ! j)"
      using True by (rule drift_fix_up)
    have "\<forall>x\<in>set (drift_fix t out). 1 \<le> x"
    proof
      fix x assume "x \<in> set (drift_fix t out)"
      then obtain i where i: "i < length out" and x: "x = drift_fix t out ! i"
        by (auto simp: in_set_conv_nth)
      have "1 \<le> out ! i" using out_ge i by simp
      then show "1 \<le> x" using up i x by force
    qed
    then show ?thesis unfolding wd
      by (rule clamp_fix_all_ge) (use up assms(5) len in simp_all)
  next
    case False
    then have gt: "t < sum_list out" by simp
    have two: "\<forall>x\<in>set out. 2 \<le> x"
      using rounded_shares_ge_two[OF assms(2,4) _ assms(3)] gt by (auto simp: out_def)
    have "of_int (sum_list out) \<le> sum_list (raw_shares t ws m) + of_nat (length ws) / 2"
      using sum_list_round_upper[of "raw_shares t ws m"] by (simp add: out_def)
    also have "\<dots> \<le> of_int t + of_nat (length ws) / 2"
      using sum_list_raw_shares_le[OF tpos assms(1,3)] by simp
    also have "\<dots> \<le> of_int t + of_nat (length ws)" by simp
    finally have "(of_int (sum_list out) :: rat) \<le> of_int (t + int (length ws))" by simp
    then have "sum_list out \<le> t + int (length ws)" by (simp only: of_int_le_iff)
    then have bnd: "\<bar>t - sum_list out\<bar> \<le> int (length out)" using gt len by simp
    have ex: "sum_list (drift_fix t out) = t \<and>
         (\<forall>j<length out. \<bar>drift_fix t out ! j - out ! j\<bar> \<le> 1)"
      using bnd out_ge by (rule drift_fix_exact)
    have "\<forall>x\<in>set (drift_fix t out). 1 \<le> x"
    proof
      fix x assume "x \<in> set (drift_fix t out)"
      then obtain i where i: "i < length out" and x: "x = drift_fix t out ! i"
        by (auto simp: in_set_conv_nth)
      have "2 \<le> out ! i" using two i by simp
      moreover have "\<bar>drift_fix t out ! i - out ! i\<bar> \<le> 1" using ex i by simp
      ultimately show "1 \<le> x" unfolding x by linarith
    qed
    then show ?thesis unfolding wd
      by (rule clamp_fix_all_ge) (use ex assms(5) len in simp_all)
  qed
qed

lemma weighted_durations_near_share:
  assumes "ws \<noteq> []" and "int (length ws) \<le> t" and "\<forall>w\<in>set ws. 0 \<le> w" and "2 \<le> m"
    and "sum_list ws \<noteq> 0" and "j < length ws"
  shows "\<bar>of_int (weighted_durations t ws m ! j) - raw_shares t ws m ! j\<bar> \<le> 3 / 2"
proof -
  have tpos: "0 < t" using assms(1,2) by (cases ws) auto
  define out where "out = map py_round (raw_shares t ws m)"
  have len: "length out = length ws" by (simp add: out_def)
  have out_ge: "\<forall>x\<in>set out. 1 \<le> x"
  proof
    fix x assume "x \<in> set out"
    then obtain r where r: "r \<in> set (raw_shares t ws m)" and x: "x = py_round r"
      by (auto simp: out_def)
    have "(of_int 1 :: rat) \<le> r"
      using raw_shares_ge_one[OF assms(2,3) _ r] assms(4) by simp
    then show "1 \<le> x" unfolding x by (rule py_round_ge)
  qed
  have wd: "weighted_durations t ws m = clamp_fix t (drift_fix t out)"
    using weighted_durations_unfold[OF tpos assms(1)] by (simp add: out_def)
  have sraw: "sum_list (raw_shares t ws m) = of_int t"
    using tpos assms(1,5) by (rule sum_list_raw_shares_eq)
  have up: "of_int (sum_list out) \<le> (of_int t :: rat) + of_nat (length ws) / 2"
    using sum_list_round_upper[of "raw_shares t ws m"] sraw by (simp add: out_def)
  have lo: "(of_int t :: rat) - of_nat (length ws) / 2 \<le> of_int (sum_list out)"
    using sum_list_round_lower[of "raw_shares t ws m"] sraw by (simp add: out_def)
  have "(of_int (sum_list out) :: rat) \<le> of_int (t + int (length ws))" using up by simp
  then have b1: "sum_list out \<le> t + int (length ws)" by (simp only: of_int_le_iff)
  have "(of_int (t - int (length ws)) :: rat) \<le> of_int (sum_list out)" using lo by simp
  then have b2: "t - int (length ws) \<le> sum_list out" by (simp only: of_int_le_iff)
  have bnd: "\<bar>t - sum_list out\<bar> \<le> int (length out)" using b1 b2 len by simp
  have ex: "sum_list (drift_fix t out) = t \<and>
         (\<forall>j<length out. \<bar>drift_fix t out ! j - out ! j\<bar> \<le> 1)"
    using bnd out_ge by (rule drift_fix_exact)
  have ge: "\<forall>x\<in>set (drift_fix t out). 1 \<le> x"
  proof (cases "sum_list out \<le> t")
    case True
    have u: "sum_list (drift_fix t out) \<le> t \<and> (\<forall>j<length out. out ! j \<le> drift_fix t out ! j)"
      using True by (rule drift_fix_up)
    show ?thesis
    proof
      fix x assume "x \<in> set (drift_fix t out)"
      then obtain i where i: "i < length out" and x: "x = drift_fix t out ! i"
        by (auto simp: in_set_conv_nth)
      have "1 \<le> out ! i" using out_ge i by simp
      then show "1 \<le> x" using u i x by force
    qed
  next
    case False
    then have gt: "t < sum_list out" by simp
    have two: "\<forall>x\<in>set out. 2 \<le> x"
      using rounded_shares_ge_two[OF assms(2,4) _ assms(3)] gt by (auto simp: out_def)
    show ?thesis
    proof
      fix x assume "x \<in> set (drift_fix t out)"
      then obtain i where i: "i < length out" and x: "x = drift_fix t out ! i"
        by (auto simp: in_set_conv_nth)
      have "2 \<le> out ! i" using two i by simp
      moreover have "\<bar>drift_fix t out ! i - out ! i\<bar> \<le> 1" using ex i by simp
      ultimately show "1 \<le> x" unfolding x by linarith
    qed
  qed
  have id: "weighted_durations t ws m = drift_fix t out"
    unfolding wd using ge ex by (simp add: clamp_fix_id)
  have j: "j < length out" using assms(6) len by simp
  have d1: "\<bar>drift_fix t out ! j - out ! j\<bar> \<le> 1" using ex j by simp
  have oj: "out ! j = py_round (raw_shares t ws m ! j)"
    using assms(6) by (simp add: out_def)
  have r1: "of_int (out ! j) \<le> raw_shares t ws m ! j + 1 / 2"
    unfolding oj by (rule py_round_upper)
  have r2: "raw_shares t ws m ! j - 1 / 2 \<le> of_int (out ! j)"
    unfolding oj by (rule py_round_lower)
  have d2: "\<bar>(of_int (drift_fix t out ! j) :: rat) - of_int (out ! j)\<bar> \<le> 1"
  proof -
    have "(of_int \<bar>drift_fix t out ! j - out ! j\<bar> :: rat) \<le> of_int 1"
      using d1 by (simp only: of_int_le_iff)
    then show ?thesis by simp
  qed
  show ?thesis unfolding id using d2 r1 r2 by linarith
qed

subsection \<open>C9: length, sum and lower bound of the duration split\<close>




subsection \<open>C8: the retry discipline of the atomic replace\<close>

lemma retry_loop_success:
  assumes "i \<le> k" and "k < n" and "env k = Replaced"
    and "\<forall>j. i \<le> j \<and> j < k \<longrightarrow> (\<exists>exc. env j = Raises exc \<and> retried exc)"
  shows "retry_loop env b n i le sl = (Inr (), k + 1, sl @ map (pause b) [i..<k])"
  using assms
proof (induction "k - i" arbitrary: i le sl)
  case 0
  then have "i = k" by simp
  then show ?case using 0 by (subst retry_loop.simps) simp
next
  case (Suc d)
  then have lt: "i < k" by simp
  then obtain exc where e: "env i = Raises exc" "retried exc" using Suc.prems by auto
  have step: "retry_loop env b n i le sl = retry_loop env b n (i + 1) (Some exc) (sl @ [pause b i])"
    using lt Suc.prems(2) e by (subst retry_loop.simps) simp
  have "retry_loop env b n (i + 1) (Some exc) (sl @ [pause b i]) =
        (Inr (), k + 1, (sl @ [pause b i]) @ map (pause b) [i + 1..<k])"
    using Suc.hyps(2) lt Suc.prems by (intro Suc.hyps(1)) auto
  then show ?case unfolding step using lt by (simp add: upt_conv_Cons)
qed

lemma retry_loop_propagate:
  assumes "i \<le> k" and "k < n" and "env k = Raises bad" and "\<not> retried bad"
    and "\<forall>j. i \<le> j \<and> j < k \<longrightarrow> (\<exists>exc. env j = Raises exc \<and> retried exc)"
  shows "retry_loop env b n i le sl = (Inl bad, k + 1, sl @ map (pause b) [i..<k])"
  using assms
proof (induction "k - i" arbitrary: i le sl)
  case 0
  then have "i = k" by simp
  then show ?case using 0 by (subst retry_loop.simps) simp
next
  case (Suc d)
  then have lt: "i < k" by simp
  then obtain exc where e: "env i = Raises exc" "retried exc" using Suc.prems by auto
  have step: "retry_loop env b n i le sl = retry_loop env b n (i + 1) (Some exc) (sl @ [pause b i])"
    using lt Suc.prems(2) e by (subst retry_loop.simps) simp
  have "retry_loop env b n (i + 1) (Some exc) (sl @ [pause b i]) =
        (Inl bad, k + 1, (sl @ [pause b i]) @ map (pause b) [i + 1..<k])"
    using Suc.hyps(2) lt Suc.prems by (intro Suc.hyps(1)) auto
  then show ?case unfolding step using lt by (simp add: upt_conv_Cons)
qed

lemma retry_loop_exhaust:
  assumes "i \<le> n" and "i = n \<longrightarrow> le = Some lastx" and "i < n \<longrightarrow> env (n - 1) = Raises lastx"
    and "\<forall>j. i \<le> j \<and> j < n \<longrightarrow> (\<exists>exc. env j = Raises exc \<and> retried exc)"
  shows "retry_loop env b n i le sl = (Inl lastx, n, sl @ map (pause b) [i..<n])"
  using assms
proof (induction "n - i" arbitrary: i le sl)
  case 0
  then have "i = n" by simp
  then show ?case using 0 by (subst retry_loop.simps) simp
next
  case (Suc d)
  then have lt: "i < n" by simp
  then obtain exc where e: "env i = Raises exc" "retried exc" using Suc.prems by auto
  have step: "retry_loop env b n i le sl = retry_loop env b n (i + 1) (Some exc) (sl @ [pause b i])"
    using lt e by (subst retry_loop.simps) simp
  have last: "i + 1 = n \<longrightarrow> Some exc = Some lastx"
    using Suc.prems(3) lt e by auto
  have "retry_loop env b n (i + 1) (Some exc) (sl @ [pause b i]) =
        (Inl lastx, n, (sl @ [pause b i]) @ map (pause b) [i + 1..<n])"
    using Suc.hyps(2) lt Suc.prems last by (intro Suc.hyps(1)) auto
  then show ?case unfolding step using lt by (simp add: upt_conv_Cons)
qed

lemma pause_default_bounds: "1 / 20 \<le> pause (1 / 20) i \<and> pause (1 / 20) i \<le> 1 / 4"
  by (simp add: pause_def min_def)

text \<open>
  C8: the replace is retried only after a \<^verbatim>\<open>PermissionError\<close> or an \<^verbatim>\<open>OSError\<close>
  whose \<^verbatim>\<open>winerror\<close> is 5 or 32, at most 40 calls are made, the sleep after the
  \<open>i\<close>-th failure starts at 50 ms and is capped at 250 ms, any other exception
  propagates from the call that raised it with no further call, and after 40 retried
  failures the last one is raised. The oracle \<open>env\<close> gives the result of each call.
\<close>

theorem atomic_replace_retry_discipline:
  "(\<forall>k<40. (\<forall>j<k. \<exists>exc. env j = Raises exc \<and> retried exc) \<longrightarrow>
      (env k = Replaced \<longrightarrow>
         atomic_replace_default env = (Inr (), k + 1, map (pause (1 / 20)) [0..<k])) \<and>
      (\<forall>bad. env k = Raises bad \<and> \<not> retried bad \<longrightarrow>
         atomic_replace_default env = (Inl bad, k + 1, map (pause (1 / 20)) [0..<k]))) \<and>
   ((\<forall>j<40. \<exists>exc. env j = Raises exc \<and> retried exc) \<longrightarrow>
      (\<exists>lastx. env 39 = Raises lastx \<and>
         atomic_replace_default env = (Inl lastx, 40, map (pause (1 / 20)) [0..<40]))) \<and>
   (\<forall>i. 1 / 20 \<le> pause (1 / 20) i \<and> pause (1 / 20) i \<le> 1 / 4) \<and>
   pause (1 / 20) 0 = 1 / 20 \<and>
   (retried exc \<longleftrightarrow> exc = PermissionError \<or> exc = OSError (Some 5) \<or> exc = OSError (Some 32))"
proof (intro conjI allI impI)
  fix k :: nat
  assume k: "k < 40" and pre: "\<forall>j<k. \<exists>exc. env j = Raises exc \<and> retried exc"
  have pre': "\<forall>j. 0 \<le> j \<and> j < k \<longrightarrow> (\<exists>exc. env j = Raises exc \<and> retried exc)"
    using pre by simp
  {
    assume ok: "env k = Replaced"
    have "retry_loop env (1 / 20) 40 0 None [] = (Inr (), k + 1, [] @ map (pause (1 / 20)) [0..<k])"
      using _ k ok pre' by (rule retry_loop_success) simp
    then show "atomic_replace_default env = (Inr (), k + 1, map (pause (1 / 20)) [0..<k])"
      by (simp add: atomic_replace_default_def atomic_replace_with_retry_def)
  }
  {
    fix bad assume bad: "env k = Raises bad \<and> \<not> retried bad"
    have "retry_loop env (1 / 20) 40 0 None [] = (Inl bad, k + 1, [] @ map (pause (1 / 20)) [0..<k])"
      using _ k _ _ pre' by (rule retry_loop_propagate) (use bad in simp_all)
    then show "atomic_replace_default env = (Inl bad, k + 1, map (pause (1 / 20)) [0..<k])"
      by (simp add: atomic_replace_default_def atomic_replace_with_retry_def)
  }
next
  assume all: "\<forall>j<40. \<exists>exc. env j = Raises exc \<and> retried exc"
  have "(39::nat) < 40" by simp
  with all have "\<exists>exc. env 39 = Raises exc \<and> retried exc" by blast
  then obtain lastx where l: "env 39 = Raises lastx" by blast
  have "retry_loop env (1 / 20) 40 0 None [] = (Inl lastx, 40, [] @ map (pause (1 / 20)) [0..<40])"
    by (rule retry_loop_exhaust) (use all l in simp_all)
  then have "atomic_replace_default env = (Inl lastx, 40, map (pause (1 / 20)) [0..<40])"
    by (simp add: atomic_replace_default_def atomic_replace_with_retry_def)
  then show "\<exists>lastx. env 39 = Raises lastx \<and>
         atomic_replace_default env = (Inl lastx, 40, map (pause (1 / 20)) [0..<40])"
    using l by blast
next
  fix i
  show "1 / 20 \<le> pause (1 / 20) i" "pause (1 / 20) i \<le> 1 / 4"
    using pause_default_bounds[of i] by simp_all
next
  show "pause (1 / 20) 0 = 1 / 20" by (simp add: pause_def)
next
  show "retried exc \<longleftrightarrow> exc = PermissionError \<or> exc = OSError (Some 5) \<or> exc = OSError (Some 32)"
    by (cases exc) auto
qed

theorem atomic_replace_retry_discipline_witness:
  "atomic_replace_default (\<lambda>i. if i < 2 then Raises PermissionError else Replaced)
     = (Inr (), 3, [1 / 20, 23 / 400]) \<and>
   atomic_replace_default (\<lambda>i. if i < 1 then Raises (OSError (Some 32)) else Raises (OSError (Some 2)))
     = (Inl (OSError (Some 2)), 2, [1 / 20]) \<and>
   fst (atomic_replace_default (\<lambda>i. Raises (OSError (Some 5)))) = Inl (OSError (Some 5)) \<and>
   fst (snd (atomic_replace_default (\<lambda>i. Raises (OSError (Some 5))))) = 40"
proof -
  let ?e1 = "\<lambda>i::nat. if i < 2 then Raises PermissionError else Replaced"
  let ?e2 = "\<lambda>i::nat. if i < 1 then Raises (OSError (Some 32)) else Raises (OSError (Some 2))"
  let ?e3 = "\<lambda>i::nat. Raises (OSError (Some 5))"
  have p: "map (pause (1 / 20)) [0..<2] = [1 / 20, 23 / 400]"
    by (simp add: pause_def upt_conv_Cons)
  have q: "map (pause (1 / 20)) [0..<1] = [1 / 20]"
    by (simp add: pause_def)
  have a: "atomic_replace_default ?e1 = (Inr (), 3, [1 / 20, 23 / 400])"
  proof -
    from atomic_replace_retry_discipline[of ?e1]
    have "\<forall>k<40. (\<forall>j<k. \<exists>exc. ?e1 j = Raises exc \<and> retried exc) \<longrightarrow>
      (?e1 k = Replaced \<longrightarrow>
         atomic_replace_default ?e1 = (Inr (), k + 1, map (pause (1 / 20)) [0..<k]))"
      by blast
    from this[rule_format, of 2] show ?thesis using p by simp
  qed
  have b: "atomic_replace_default ?e2 = (Inl (OSError (Some 2)), 2, [1 / 20])"
  proof -
    from atomic_replace_retry_discipline[of ?e2]
    have "\<forall>k<40. (\<forall>j<k. \<exists>exc. ?e2 j = Raises exc \<and> retried exc) \<longrightarrow>
      (\<forall>bad. ?e2 k = Raises bad \<and> \<not> retried bad \<longrightarrow>
         atomic_replace_default ?e2 = (Inl bad, k + 1, map (pause (1 / 20)) [0..<k]))"
      by blast
    from this[rule_format, of 1 "OSError (Some 2)"] show ?thesis using q by simp
  qed
  have c: "\<exists>lastx. ?e3 39 = Raises lastx \<and>
         atomic_replace_default ?e3 = (Inl lastx, 40, map (pause (1 / 20)) [0..<40])"
    using atomic_replace_retry_discipline[of ?e3] by simp
  then have "atomic_replace_default ?e3 = (Inl (OSError (Some 5)), 40, map (pause (1 / 20)) [0..<40])"
    by auto
  then show ?thesis using a b by simp
qed

subsection \<open>C7: placeholders in the written items\<close>

lemma prev_end_snoc:
  "prev_end (xs @ [it]) = (if o_end it \<noteq> None then o_end it else prev_end xs)"
  by (simp add: prev_end_def Let_def)

lemma prev_audio_snoc:
  "prev_audio (xs @ [it]) =
     (if o_end it \<noteq> None \<and> truthy_str (o_audio it) then o_audio it else prev_audio xs)"
  by (simp add: prev_audio_def Let_def)

lemma length_save_loop [simp]: "length (save_loop rs ex i ss le la) = length ss"
  by (induction ss arbitrary: i le la) (auto simp: Let_def split: prod.splits)


lemma save_loop_placeholder:
  assumes "le0 = prev_end pre" and "la0 = prev_audio pre"
    and "j < length ss" and "s_placeholder (ss ! j)"
    and "own_time rs ex (i + j) (ss ! j) = (None, en0, src0)"
  shows "(let items = pre @ save_loop rs ex i ss le0 la0;
              it = save_loop rs ex i ss le0 la0 ! j;
              before = take (length pre + j) items
          in if prev_end before \<noteq> None
             then o_start it = prev_end before \<and> o_end it = prev_end before \<and>
                  o_audio it = (if src0 = None then prev_audio before else src0)
             else o_start it = None \<and> o_end it = en0 \<and> o_audio it = src0)"
  using assms
proof (induction ss arbitrary: i j pre le0 la0)
  case Nil
  then show ?case by simp
next
  case (Cons sent rest)
  obtain st1 en1 src1 where ot: "own_time rs ex i sent = (st1, en1, src1)"
    by (cases "own_time rs ex i sent") auto
  define patch where "patch = (st1 = None \<and> s_placeholder sent \<and> le0 \<noteq> None)"
  define st where "st = (if patch then le0 else st1)"
  define en where "en = (if patch then le0 else en1)"
  define src where "src = (if patch \<and> src1 = None then la0 else src1)"
  define item where "item = \<lparr>o_idx = i, o_text = s_text sent, o_start = st, o_end = en, o_audio = src\<rparr>"
  define le' where "le' = (if en \<noteq> None then en else le0)"
  define la' where "la' = (if en \<noteq> None \<and> truthy_str src then src else la0)"
  have unf: "save_loop rs ex i (sent # rest) le0 la0 =
             item # save_loop rs ex (i + 1) rest le' la'"
    by (simp add: ot Let_def patch_def st_def en_def src_def item_def le'_def la'_def)
  show ?case
  proof (cases j)
    case 0
    then have o0: "own_time rs ex i sent = (None, en0, src0)" using Cons.prems by simp
    then have eq: "st1 = None" "en1 = en0" "src1 = src0" using ot by simp_all
    have ph: "s_placeholder sent" using Cons.prems 0 by simp
    show ?thesis unfolding unf using 0 Cons.prems(1,2) eq ph
      by (auto simp: Let_def item_def st_def en_def src_def patch_def)
  next
    case (Suc j')
    have a1: "le' = prev_end (pre @ [item])"
      using Cons.prems(1) by (simp add: prev_end_snoc le'_def item_def)
    have a2: "la' = prev_audio (pre @ [item])"
      using Cons.prems(2) by (simp add: prev_audio_snoc la'_def item_def)
    have IH: "(let items = (pre @ [item]) @ save_loop rs ex (i + 1) rest le' la';
              it = save_loop rs ex (i + 1) rest le' la' ! j';
              before = take (length (pre @ [item]) + j') items
          in if prev_end before \<noteq> None
             then o_start it = prev_end before \<and> o_end it = prev_end before \<and>
                  o_audio it = (if src0 = None then prev_audio before else src0)
             else o_start it = None \<and> o_end it = en0 \<and> o_audio it = src0)"
      using Cons.prems Suc by (intro Cons.IH[OF a1 a2]) auto
    show ?thesis unfolding unf using IH Suc by (simp add: Let_def)
  qed
qed

text \<open>
  C7 (as stated): the placeholder inherits its \<open>audio_file\<close> from the previous committed
  item. The loop keeps \<^verbatim>\<open>last_audio_file\<close> apart from \<^verbatim>\<open>last_end_ms\<close> and renews it only
  when the item written has a non-empty \<open>audio_file\<close> (lines 1743-1746): after an item
  of \<open>a.wav\<close> ending at 500 and an item without a file ending at 900, a placeholder is
  written with the times 900/900 of the second item and the file \<open>a.wav\<close> of the first.
\<close>

theorem placeholder_audio_not_previous_item:
  "(let s0 = \<lparr>s_text = str ''Hi.'', s_norm = str ''hi.'', s_tokens = [str ''hi''], s_placeholder = False\<rparr>;
        s1 = \<lparr>s_text = str ''Yo.'', s_norm = str ''yo.'', s_tokens = [str ''yo''], s_placeholder = False\<rparr>;
        s2 = \<lparr>s_text = [], s_norm = [], s_tokens = [], s_placeholder = True\<rparr>;
        items = save_items [(s0, Some 0, Some 500, Some (str ''a.wav'')),
                            (s1, Some 600, Some 900, None)] None [s0, s1, s2]
    in o_end (items ! 1) = Some 900 \<and> o_audio (items ! 1) = None \<and>
       o_start (items ! 2) = Some 900 \<and> o_end (items ! 2) = Some 900 \<and>
       o_audio (items ! 2) = Some (str ''a.wav'') \<and>
       o_audio (items ! 2) \<noteq> o_audio (items ! 1))"
  by (simp add: save_items_def own_time_def times_get_def Let_def truthy_str_def str_def)

text \<open>
  C7 (amended): a sentence whose meta has \<open>placeholder = True\<close> and that has no time of its own
  (neither in the results nor in the previous file) is written with \<open>start_ms\<close> and
  \<open>end_ms\<close> both equal to the last non-null \<open>end_ms\<close> of the items before it, and
  with the \<open>audio_file\<close> of the last earlier item that has an \<open>end_ms\<close> and a file
  name (unless the entry carries a source itself); when no earlier item has an
  \<open>end_ms\<close>, its \<open>start_ms\<close> and \<open>end_ms\<close> stay null.
\<close>

theorem save_items_placeholder:
  assumes "i < length sentences_all" and "s_placeholder (sentences_all ! i)"
    and "own_time res existing_items i (sentences_all ! i) = (None, None, src0)"
  shows "(let items = save_items res existing_items sentences_all;
              it = items ! i;
              before = take i items
          in if prev_end before \<noteq> None
             then o_start it = prev_end before \<and> o_end it = prev_end before \<and>
                  o_audio it = (if src0 = None then prev_audio before else src0)
             else o_start it = None \<and> o_end it = None \<and> o_audio it = src0)"
proof -
  have a: "None = prev_end []" by (simp add: prev_end_def)
  have b: "None = prev_audio []" by (simp add: prev_audio_def)
  have c: "own_time res existing_items (0 + i) (sentences_all ! i) = (None, None, src0)"
    using assms(3) by simp
  from save_loop_placeholder[OF a b assms(1,2) c]
  show ?thesis by (simp add: save_items_def Let_def)
qed

theorem save_items_placeholder_witness:
  "(let s0 = \<lparr>s_text = str ''Hi.'', s_norm = str ''hi.'', s_tokens = [str ''hi''], s_placeholder = False\<rparr>;
        s1 = \<lparr>s_text = [], s_norm = [], s_tokens = [], s_placeholder = True\<rparr>;
        items = save_items [(s0, Some 0, Some 500, Some (str ''a.wav'')), (s1, None, None, None)]
                  None [s0, s1]
    in o_start (items ! 1) = Some 500 \<and> o_end (items ! 1) = Some 500 \<and>
       o_audio (items ! 1) = Some (str ''a.wav'')) \<and>
   (let s1 = \<lparr>s_text = [], s_norm = [], s_tokens = [], s_placeholder = True\<rparr>;
        items = save_items [(s1, None, None, None)] None [s1]
    in o_start (items ! 0) = None \<and> o_end (items ! 0) = None)"
proof -
  define s0 where "s0 = \<lparr>s_text = str ''Hi.'', s_norm = str ''hi.'', s_tokens = [str ''hi''], s_placeholder = False\<rparr>"
  define s1 where "s1 = \<lparr>s_text = [], s_norm = [], s_tokens = [], s_placeholder = True\<rparr>"
  define rs :: "result_entry list" where
    "rs = [(s0, Some 0, Some 500, Some (str ''a.wav'')), (s1, None, None, None)]"
  have own1: "own_time rs None 1 ([s0, s1] ! 1) = (None, None, None)"
    by (simp add: own_time_def times_get_def rs_def)
  have ph: "s_placeholder ([s0, s1] ! 1)" by (simp add: s1_def)
  have items: "save_items rs None [s0, s1] =
     [\<lparr>o_idx = 0, o_text = s_text s0, o_start = Some 0, o_end = Some 500, o_audio = Some (str ''a.wav'')\<rparr>,
      \<lparr>o_idx = 1, o_text = s_text s1, o_start = Some 500, o_end = Some 500, o_audio = Some (str ''a.wav'')\<rparr>]"
    by (simp add: save_items_def own_time_def times_get_def rs_def Let_def s0_def s1_def
        truthy_str_def str_def)
  have pe: "prev_end (take 1 (save_items rs None [s0, s1])) = Some 500"
    unfolding items by (simp add: prev_end_def)
  have A: "o_start (save_items rs None [s0, s1] ! 1) = Some 500 \<and>
           o_end (save_items rs None [s0, s1] ! 1) = Some 500 \<and>
           o_audio (save_items rs None [s0, s1] ! 1) = Some (str ''a.wav'')"
    using save_items_placeholder[of 1 "[s0, s1]" rs None None, OF _ ph own1] pe
    unfolding items by (simp add: Let_def)
  have own2: "own_time [(s1, None, None, None)] None 0 ([s1] ! 0) = (None, None, None)"
    by (simp add: own_time_def times_get_def)
  have ph2: "s_placeholder ([s1] ! 0)" by (simp add: s1_def)
  have B: "o_start (save_items [(s1, None, None, None)] None [s1] ! 0) = None \<and>
           o_end (save_items [(s1, None, None, None)] None [s1] ! 0) = None"
    using save_items_placeholder[of 0 "[s1]" "[(s1, None, None, None)]" None None, OF _ ph2 own2]
    by (simp add: Let_def prev_end_def)
  show ?thesis using A B by (simp add: Let_def s0_def s1_def rs_def)
qed

subsection \<open>C5: the cap on the window size\<close>

lemma window_cands_le:
  "window_cands L aggressive avail expn = Some cand \<Longrightarrow> k \<in> set cand \<Longrightarrow> k \<le> max_len L aggressive"
  by (auto simp: window_cands_def Let_def split: if_splits)

lemma slide_log:
  "w \<in> set (snd (snd (slide score a s aggressive k i st))) \<Longrightarrow> w \<in> set (snd st) \<or> snd w = k"
proof (induction score a s aggressive k i st rule: slide.induct)
  case (1 score a s aggressive k i st)
  show ?case
  proof (cases "i + k \<le> length (words a) \<and> \<not> int (fst st) > dyn_limit a aggressive")
    case False
    then have "slide score a s aggressive k i st = (None, st)"
      by (subst slide.simps) auto
    then show ?thesis using "1.prems" by simp
  next
    case True
    let ?sc = "window_score score a s aggressive (slice (word_texts a) i (i + k))"
    let ?st' = "tick st i k"
    show ?thesis
    proof (cases "?sc \<ge> score_threshold a aggressive")
      case hit: True
      have "slide score a s aggressive k i st = (Some (make_hit a s i k), ?st')"
        using True hit by (subst slide.simps) (simp add: Let_def)
      then show ?thesis using "1.prems" by (auto simp: tick_def)
    next
      case miss: False
      let ?i' = "i + max 1 (k div (if aggressive then 10 else 6))"
      have unf: "slide score a s aggressive k i st = slide score a s aggressive k ?i' ?st'"
        using True miss by (subst slide.simps) (simp add: Let_def)
      have "w \<in> set (snd ?st') \<or> snd w = k"
      proof (rule "1.IH")
        show "i + k \<le> length (words a)" using True by simp
        show "\<not> dyn_limit a aggressive < int (fst st)" using True by simp
        show "?sc = ?sc" ..
        show "?st' = ?st'" ..
        show "\<not> score_threshold a aggressive \<le> ?sc" using miss by simp
        show "w \<in> set (snd (snd (slide score a s aggressive k ?i' ?st')))"
          using "1.prems" unf by simp
      qed
      then show ?thesis by (auto simp: tick_def)
    qed
  qed
qed

lemma slide_cands_log:
  "w \<in> set (snd (snd (slide_cands score a s aggressive cand st))) \<Longrightarrow>
   w \<in> set (snd st) \<or> snd w \<in> set cand"
proof (induction cand arbitrary: st)
  case Nil
  then show ?case by simp
next
  case (Cons k ks)
  obtain h st' where r: "slide score a s aggressive k (cursor a) st = (h, st')"
    by (cases "slide score a s aggressive k (cursor a) st") auto
  have one: "\<And>v. v \<in> set (snd st') \<Longrightarrow> v \<in> set (snd st) \<or> snd v = k"
    using slide_log[of _ score a s aggressive k "cursor a" st] r by simp
  show ?case
  proof (cases h)
    case None
    then have "w \<in> set (snd (snd (slide_cands score a s aggressive ks st')))"
      using Cons.prems r by simp
    then have "w \<in> set (snd st') \<or> snd w \<in> set ks" by (rule Cons.IH)
    then show ?thesis using one[of w] by (simp; blast)
  next
    case (Some x)
    then have "w \<in> set (snd st')" using Cons.prems r by simp
    then show ?thesis using one[of w] by (simp; blast)
  qed
qed

lemma tail_best_log:
  "w \<in> set (snd (snd (tail_best score a s aggressive end_idx cand best st))) \<Longrightarrow>
   w \<in> set (snd st) \<or> snd w \<in> set cand"
proof (induction cand arbitrary: best st)
  case Nil
  then show ?case by simp
next
  case (Cons k ks)
  show ?case
  proof (cases "end_idx + 1 < k + cursor a \<or> end_idx + 1 > length (words a)")
    case True
    then have "w \<in> set (snd (snd (tail_best score a s aggressive end_idx ks best st)))"
      using Cons.prems by simp
    then have "w \<in> set (snd st) \<or> snd w \<in> set ks" by (rule Cons.IH)
    then show ?thesis by auto
  next
    case False
    show ?thesis
    proof (cases "int (fst st) > dyn_limit a aggressive")
      case True
      then show ?thesis using Cons.prems False by simp
    next
      case lim: False
      let ?i = "end_idx + 1 - k"
      have "\<exists>b'. tail_best score a s aggressive end_idx (k # ks) best st =
            tail_best score a s aggressive end_idx ks b' (tick st ?i k)"
        using False lim by (simp add: Let_def) (rule exI, rule refl)
      then obtain b' where "tail_best score a s aggressive end_idx (k # ks) best st =
            tail_best score a s aggressive end_idx ks b' (tick st ?i k)" by blast
      then have "w \<in> set (snd (snd (tail_best score a s aggressive end_idx ks b' (tick st ?i k))))"
        using Cons.prems by simp
      then have "w \<in> set (snd (tick st ?i k)) \<or> snd w \<in> set ks" by (rule Cons.IH)
      then show ?thesis by (auto simp: tick_def)
    qed
  qed
qed

lemma tail_scan_log:
  "w \<in> set (snd (snd (tail_scan score a s aggressive cand ends st))) \<Longrightarrow>
   w \<in> set (snd st) \<or> snd w \<in> set cand"
proof (induction ends arbitrary: st)
  case Nil
  then show ?case by simp
next
  case (Cons e es)
  obtain best st' where r: "tail_best score a s aggressive e cand None st = (best, st')"
    by (cases "tail_best score a s aggressive e cand None st") auto
  have one: "\<And>v. v \<in> set (snd st') \<Longrightarrow> v \<in> set (snd st) \<or> snd v \<in> set cand"
    using tail_best_log[of _ score a s aggressive e cand None st] r by simp
  have "w \<in> set (snd st') \<or> w \<in> set (snd (snd (tail_scan score a s aggressive cand es st')))"
    using Cons.prems r by (auto split: if_splits option.splits prod.splits)
  then show ?case
  proof
    assume "w \<in> set (snd st')"
    then show ?thesis using one[of w] by blast
  next
    assume "w \<in> set (snd (snd (tail_scan score a s aggressive cand es st')))"
    then have "w \<in> set (snd st') \<or> snd w \<in> set cand" by (rule Cons.IH)
    then show ?thesis using one[of w] by blast
  qed
qed

lemma exp_loop_log:
  "w \<in> set (snd (snd (exp_loop score a s aggressive exps st))) \<Longrightarrow>
   w \<in> set (snd st) \<or> snd w \<le> max_len (sentence_len s) aggressive"
proof (induction exps arbitrary: st)
  case Nil
  then show ?case by simp
next
  case (Cons e es)
  let ?wc = "window_cands (sentence_len s) aggressive (length (words a) - cursor a) e"
  show ?case
  proof (cases ?wc)
    case None
    then have "w \<in> set (snd (snd (exp_loop score a s aggressive es st)))"
      using Cons.prems by simp
    then show ?thesis by (rule Cons.IH)
  next
    case (Some cand)
    have cap: "\<And>k. k \<in> set cand \<Longrightarrow> k \<le> max_len (sentence_len s) aggressive"
      using window_cands_le[OF Some] by simp
    obtain h1 st1 where t: "tail_scan score a s aggressive cand (tail_positions a s) st = (h1, st1)"
      by (cases "tail_scan score a s aggressive cand (tail_positions a s) st") auto
    have t_log: "\<And>v. v \<in> set (snd st1) \<Longrightarrow> v \<in> set (snd st) \<or> snd v \<in> set cand"
      using tail_scan_log[of _ score a s aggressive cand "tail_positions a s" st] t by simp
    define st0 where "st0 = (if require_tail s \<and> tail_positions a s \<noteq> [] then st1 else st)"
    have st0_log: "\<And>v. v \<in> set (snd st0) \<Longrightarrow> v \<in> set (snd st) \<or> snd v \<in> set cand"
    proof -
      fix v assume v: "v \<in> set (snd st0)"
      show "v \<in> set (snd st) \<or> snd v \<in> set cand"
      proof (cases "require_tail s \<and> tail_positions a s \<noteq> []")
        case True
        then have "st0 = st1" unfolding st0_def by (rule if_P)
        then show ?thesis using v t_log[of v] by simp
      next
        case False
        then have "st0 = st" unfolding st0_def by (rule if_not_P)
        then show ?thesis using v by simp
      qed
    qed
    obtain h2 st2 where sl: "slide_cands score a s aggressive cand st0 = (h2, st2)"
      by (cases "slide_cands score a s aggressive cand st0") auto
    have s_log: "\<And>v. v \<in> set (snd st2) \<Longrightarrow> v \<in> set (snd st0) \<or> snd v \<in> set cand"
      using slide_cands_log[of _ score a s aggressive cand st0] sl by simp
    have "w \<in> set (snd st0) \<or> w \<in> set (snd st2) \<or>
          w \<in> set (snd (snd (exp_loop score a s aggressive es st2)))"
      using Cons.prems Some t sl
      by (auto simp: st0_def split: if_splits option.splits prod.splits)
    then show ?thesis
    proof (elim disjE)
      assume "w \<in> set (snd st0)"
      then show ?thesis using st0_log cap by blast
    next
      assume "w \<in> set (snd st2)"
      then show ?thesis using s_log st0_log cap by blast
    next
      assume "w \<in> set (snd (snd (exp_loop score a s aggressive es st2)))"
      then have "w \<in> set (snd st2) \<or> snd w \<le> max_len (sentence_len s) aggressive"
        by (rule Cons.IH)
      then show ?thesis using s_log st0_log cap by blast
    qed
  qed
qed

lemma scored_windows_le:
  "w \<in> set (scored_windows score a s aggressive) \<Longrightarrow> snd w \<le> max_len (sentence_len s) aggressive"
  using exp_loop_log[of w score a s aggressive "expansions aggressive" "(0, [])"]
  by (simp add: scored_windows_def try_match_sentence_core_run_def)

lemma int_scale_div: "int_scale n (of_nat p / of_nat q) = (n * p) div q"
proof -
  have "(of_nat n :: rat) * (of_nat p / of_nat q) = of_nat (n * p) / of_nat q"
    by simp
  then have "\<lfloor>(of_nat n :: rat) * (of_nat p / of_nat q)\<rfloor> = \<lfloor>(of_nat (n * p) :: rat) / of_nat q\<rfloor>"
    by (simp only:)
  also have "\<dots> = int ((n * p) div q)"
    by (rule floor_divide_of_nat_eq)
  finally show ?thesis by (simp only: int_scale_def nat_int)
qed

text \<open>
  C5 (as stated): with \<open>L\<close> tokens no scored window exceeds \<open>L + 6\<close> tokens in
  non-aggressive mode. Line 1329 allows \<open>max(6, int(L * 0.2))\<close> extra tokens there,
  which is 7 from \<open>L = 35\<close> on: for a sentence of 35 tokens and 42 words that do not
  match, the matcher scores the window of all 42 words.
\<close>

theorem scored_window_above_six_extra:
  "length (s_tokens ex_long_sentence) = 35 \<and>
   (0, 42) \<in> set (scored_windows exact_scorer ex_long_aligner ex_long_sentence False) \<and>
   \<not> (42 :: nat) \<le> 35 + 6"
proof -
  have "(0, 42) \<in> set (scored_windows exact_scorer ex_long_aligner ex_long_sentence False)"
    by code_simp
  then show ?thesis by (simp add: ex_long_sentence_def)
qed

text \<open>
  C5 (amended): with \<open>L = max(1, len(tokens))\<close>, every window the matcher scores has
  at most \<open>L + max(6, floor(0.6 L))\<close> tokens in aggressive mode and at most
  \<open>L + max(6, floor(0.2 L))\<close> tokens in non-aggressive mode; the latter is \<open>L + 6\<close>
  for sentences of fewer than 35 tokens.
\<close>

theorem scored_window_size_cap:
  assumes "w \<in> set (scored_windows score a s aggressive)"
  shows "(aggressive \<longrightarrow> snd w \<le> sentence_len s + max 6 ((sentence_len s * 6) div 10)) \<and>
         (\<not> aggressive \<longrightarrow> snd w \<le> sentence_len s + max 6 ((sentence_len s * 2) div 10)) \<and>
         (\<not> aggressive \<and> sentence_len s < 35 \<longrightarrow> snd w \<le> sentence_len s + 6)"
proof -
  have cap: "snd w \<le> max_len (sentence_len s) aggressive"
    using assms by (rule scored_windows_le)
  have six: "int_scale (sentence_len s) (6 / 10) = (sentence_len s * 6) div 10"
    using int_scale_div[of "sentence_len s" 6 10] by simp
  have two: "int_scale (sentence_len s) (2 / 10) = (sentence_len s * 2) div 10"
    using int_scale_div[of "sentence_len s" 2 10] by simp
  show ?thesis using cap six two
    by (auto simp: max_len_def MAX_EXTRA_TOKENS_def)
qed

theorem scored_window_size_cap_witness:
  "scored_windows exact_scorer ex_hello_aligner ex_hello False = [(0, 1)] \<and>
   sentence_len ex_hello = 1 \<and> snd ((0, 1) :: nat \<times> nat) \<le> sentence_len ex_hello + 6"
proof -
  have e: "scored_windows exact_scorer ex_hello_aligner ex_hello False = [(0, 1)]"
    by code_simp
  have l: "sentence_len ex_hello = 1" by (simp add: sentence_len_def ex_hello_def)
  have "(0, 1) \<in> set (scored_windows exact_scorer ex_hello_aligner ex_hello False)"
    unfolding e by simp
  from scored_window_size_cap[OF this] show ?thesis using e l by simp
qed

subsection \<open>Every hit is built by the timing commit\<close>

definition window_ok :: "aligner \<Rightarrow> nat \<Rightarrow> nat \<Rightarrow> bool" where
  "window_ok a i k \<longleftrightarrow> i + k \<le> length (words a)"

lemma slide_hit:
  "fst (slide score a s aggressive k i st) = Some h \<Longrightarrow>
   \<exists>i'. h = make_hit a s i' k \<and> window_ok a i' k"
proof (induction score a s aggressive k i st rule: slide.induct)
  case (1 score a s aggressive k i st)
  show ?case
  proof (cases "i + k \<le> length (words a) \<and> \<not> int (fst st) > dyn_limit a aggressive")
    case False
    then have "slide score a s aggressive k i st = (None, st)"
      by (subst slide.simps) auto
    then show ?thesis using "1.prems" by simp
  next
    case True
    let ?sc = "window_score score a s aggressive (slice (word_texts a) i (i + k))"
    let ?st' = "tick st i k"
    show ?thesis
    proof (cases "?sc \<ge> score_threshold a aggressive")
      case hit: True
      have "slide score a s aggressive k i st = (Some (make_hit a s i k), ?st')"
        using True hit by (subst slide.simps) (simp add: Let_def)
      then have "h = make_hit a s i k" using "1.prems" by simp
      then show ?thesis using True by (auto simp: window_ok_def)
    next
      case miss: False
      let ?i' = "i + max 1 (k div (if aggressive then 10 else 6))"
      have unf: "slide score a s aggressive k i st = slide score a s aggressive k ?i' ?st'"
        using True miss by (subst slide.simps) (simp add: Let_def)
      show ?thesis
      proof (rule "1.IH")
        show "i + k \<le> length (words a)" using True by simp
        show "\<not> dyn_limit a aggressive < int (fst st)" using True by simp
        show "?sc = ?sc" ..
        show "?st' = ?st'" ..
        show "\<not> score_threshold a aggressive \<le> ?sc" using miss by simp
        show "fst (slide score a s aggressive k ?i' ?st') = Some h"
          using "1.prems" unf by simp
      qed
    qed
  qed
qed

lemma slide_cands_hit:
  "fst (slide_cands score a s aggressive cand st) = Some h \<Longrightarrow>
   \<exists>i k. h = make_hit a s i k \<and> window_ok a i k"
proof (induction cand arbitrary: st)
  case Nil
  then show ?case by simp
next
  case (Cons k ks)
  obtain r st' where r: "slide score a s aggressive k (cursor a) st = (r, st')"
    by (cases "slide score a s aggressive k (cursor a) st") auto
  show ?case
  proof (cases r)
    case None
    then have "fst (slide_cands score a s aggressive ks st') = Some h"
      using Cons.prems r by simp
    then show ?thesis by (rule Cons.IH)
  next
    case (Some x)
    then have "fst (slide score a s aggressive k (cursor a) st) = Some h"
      using Cons.prems r by simp
    then show ?thesis using slide_hit by blast
  qed
qed

lemma tail_best_window:
  "tail_best score a s aggressive end_idx cand best st = (Some (b, i, k), st') \<Longrightarrow>
   (\<forall>b0 i0 k0. best = Some (b0, i0, k0) \<longrightarrow> window_ok a i0 k0) \<Longrightarrow> window_ok a i k"
proof (induction cand arbitrary: best st)
  case Nil
  then show ?case by simp
next
  case (Cons c cs)
  show ?case
  proof (cases "end_idx + 1 < c + cursor a \<or> end_idx + 1 > length (words a)")
    case True
    then have "tail_best score a s aggressive end_idx cs best st = (Some (b, i, k), st')"
      using Cons.prems(1) by simp
    then show ?thesis using Cons.prems(2) by (rule Cons.IH)
  next
    case False
    show ?thesis
    proof (cases "int (fst st) > dyn_limit a aggressive")
      case True
      then have "best = Some (b, i, k)" using Cons.prems(1) False by simp
      then show ?thesis using Cons.prems(2) by simp
    next
      case lim: False
      let ?i = "end_idx + 1 - c"
      let ?sc = "window_score score a s aggressive (slice (word_texts a) ?i (?i + c))"
      define best' where "best' = better best ?sc ?i c"
      have w: "window_ok a ?i c" using False by (simp add: window_ok_def)
      have ok': "\<forall>b0 i0 k0. best' = Some (b0, i0, k0) \<longrightarrow> window_ok a i0 k0"
        using Cons.prems(2) w by (auto simp: best'_def better_def split: option.splits if_splits)
      have "tail_best score a s aggressive end_idx (c # cs) best st =
            tail_best score a s aggressive end_idx cs best' (tick st ?i c)"
        unfolding best'_def using False lim by (simp add: Let_def)
      then have "tail_best score a s aggressive end_idx cs best' (tick st ?i c) = (Some (b, i, k), st')"
        using Cons.prems(1) by simp
      then show ?thesis using ok' by (rule Cons.IH)
    qed
  qed
qed

lemma tail_scan_hit:
  "fst (tail_scan score a s aggressive cand ends st) = Some h \<Longrightarrow>
   \<exists>i k. h = make_hit a s i k \<and> window_ok a i k"
proof (induction ends arbitrary: st)
  case Nil
  then show ?case by simp
next
  case (Cons e es)
  obtain best st' where r: "tail_best score a s aggressive e cand None st = (best, st')"
    by (cases "tail_best score a s aggressive e cand None st") auto
  show ?case
  proof (cases "int (fst st') > dyn_limit a aggressive")
    case True
    then show ?thesis using Cons.prems r by simp
  next
    case lim: False
    show ?thesis
    proof (cases best)
      case None
      then have "fst (tail_scan score a s aggressive cand es st') = Some h"
        using Cons.prems r lim by simp
      then show ?thesis by (rule Cons.IH)
    next
      case (Some t)
      obtain b i k where t: "t = (b, i, k)" by (cases t) auto
      have w: "window_ok a i k"
        using tail_best_window[of score a s aggressive e cand None st b i k st'] r Some t by simp
      show ?thesis
      proof (cases "b \<ge> score_threshold a aggressive")
        case True
        then have "h = make_hit a s i k" using Cons.prems r lim Some t by simp
        then show ?thesis using w by blast
      next
        case False
        then have "fst (tail_scan score a s aggressive cand es st') = Some h"
          using Cons.prems r lim Some t by simp
        then show ?thesis by (rule Cons.IH)
      qed
    qed
  qed
qed

lemma exp_loop_hit:
  "fst (exp_loop score a s aggressive exps st) = Some h \<Longrightarrow>
   \<exists>i k. h = make_hit a s i k \<and> window_ok a i k"
proof (induction exps arbitrary: st)
  case Nil
  then show ?case by simp
next
  case (Cons e es)
  let ?wc = "window_cands (sentence_len s) aggressive (length (words a) - cursor a) e"
  show ?case
  proof (cases ?wc)
    case None
    then have "fst (exp_loop score a s aggressive es st) = Some h"
      using Cons.prems by simp
    then show ?thesis by (rule Cons.IH)
  next
    case (Some cand)
    obtain h1 st1 where t: "tail_scan score a s aggressive cand (tail_positions a s) st = (h1, st1)"
      by (cases "tail_scan score a s aggressive cand (tail_positions a s) st") auto
    define st0 where "st0 = (if require_tail s \<and> tail_positions a s \<noteq> [] then st1 else st)"
    obtain h2 st2 where sl: "slide_cands score a s aggressive cand st0 = (h2, st2)"
      by (cases "slide_cands score a s aggressive cand st0") auto
    have "fst (tail_scan score a s aggressive cand (tail_positions a s) st) = Some h \<or>
          fst (slide_cands score a s aggressive cand st0) = Some h \<or>
          fst (exp_loop score a s aggressive es st2) = Some h"
      using Cons.prems Some t sl
      by (auto simp: st0_def split: if_splits option.splits prod.splits)
    then show ?thesis using tail_scan_hit slide_cands_hit Cons.IH by blast
  qed
qed

lemma core_hit:
  "try_match_sentence_core score a s aggressive = Some h \<Longrightarrow>
   \<exists>i k. h = make_hit a s i k \<and> window_ok a i k"
  unfolding try_match_sentence_core_def try_match_sentence_core_run_def
  by (rule exp_loop_hit)

lemma make_hit_times:
  "make_hit a s i k = (st, en, src_win, end_idx) \<Longrightarrow>
   last_end_ms a + 1 \<le> st \<and> st + MIN_MATCH_MS \<le> en \<and> src_win = None \<and>
   st = max (ms_of (w_start (words a ! i))) (last_end_ms a + 1)"
  by (auto simp: make_hit_def Let_def split: if_splits)

lemma core_hit_times:
  assumes "try_match_sentence_core score a s aggressive = Some (st, en, src_win, end_idx)"
  shows "last_end_ms a + 1 \<le> st \<and> st + MIN_MATCH_MS \<le> en \<and> src_win = None"
proof -
  obtain i k where "(st, en, src_win, end_idx) = make_hit a s i k"
    using core_hit[OF assms] by blast
  then show ?thesis using make_hit_times[of a s i k st en src_win end_idx] by simp
qed

subsection \<open>C3: the source recorded for a matched sentence\<close>

text \<open>
  C3 (as stated): the recorded \<open>audio_file\<close> is the source with the largest overlap
  with the committed interval, unless \<open>forced_src\<close> is set. The matcher returns
  \<^verbatim>\<open>src_win = None\<close> from both of its exits and \<^verbatim>\<open>_dominant_src\<close> is called nowhere:
  without \<open>forced_src\<close> the entry for \<open>hello\<close>, matched on a word of \<open>a.wav\<close> that
  covers the whole interval, records no file, while \<^verbatim>\<open>_dominant_src\<close> on that interval
  answers \<open>a.wav\<close>.
\<close>

theorem matched_source_not_dominant:
  "(case try_match_sentence exact_scorer ex_hello_aligner ex_hello False of
      None \<Rightarrow> False
    | Some a' \<Rightarrow> results a' = [(ex_hello, Some 0, Some 500, None)]) \<and>
   forced_src ex_hello_aligner = None \<and>
   dominant_src ex_hello_aligner 0 1 (Some 0) (Some 500) = Inr (Some (str ''a.wav''))"
proof -
  have a: "(case try_match_sentence exact_scorer ex_hello_aligner ex_hello False of
      None \<Rightarrow> False
    | Some a' \<Rightarrow> results a' = [(ex_hello, Some 0, Some 500, None)])"
    by code_simp
  have b: "forced_src ex_hello_aligner = None"
    by (simp add: ex_hello_aligner_def with_words_def init_aligner_def)
  have c: "dominant_src ex_hello_aligner 0 1 (Some 0) (Some 500) = Inr (Some (str ''a.wav''))"
    by code_simp
  show ?thesis using a b c by blast
qed

text \<open>
  C3 (amended): a sentence committed by the fuzzy matcher records \<open>forced_src\<close> as its
  \<open>audio_file\<close> when \<open>forced_src\<close> is set to a non-empty name, and no file (null)
  otherwise; the overlap computation of \<^verbatim>\<open>_dominant_src\<close> takes no part in it.
\<close>

theorem try_match_sentence_source:
  assumes "try_match_sentence score a s aggressive = Some a'"
  shows "\<exists>st en. results a' =
           results a @ [(s, Some st, Some en,
                         if truthy_str (forced_src a) then forced_src a else None)]"
proof -
  from assms obtain st en src_win end_idx where
    h: "try_match_sentence_core score a s aggressive = Some (st, en, src_win, end_idx)"
    by (auto simp: try_match_sentence_def split: option.splits)
  have n: "src_win = None" using core_hit_times[OF h] by simp
  have "results a' = results a @ [(s, Some st, Some en,
                         if truthy_str (forced_src a) then forced_src a else None)]"
    using assms h n by (auto simp: try_match_sentence_def Let_def)
  then show ?thesis by blast
qed

theorem try_match_sentence_source_witness:
  "(case try_match_sentence exact_scorer (ex_hello_aligner\<lparr>forced_src := Some (str ''b.wav'')\<rparr>)
          ex_hello False of
      None \<Rightarrow> False
    | Some a' \<Rightarrow> results a' = [(ex_hello, Some 0, Some 500, Some (str ''b.wav''))])"
proof -
  let ?a = "ex_hello_aligner\<lparr>forced_src := Some (str ''b.wav'')\<rparr>"
  have "try_match_sentence exact_scorer ?a ex_hello False \<noteq> None" by code_simp
  then obtain a' where a': "try_match_sentence exact_scorer ?a ex_hello False = Some a'" by blast
  from try_match_sentence_source[OF a'] obtain st en where
    r: "results a' = results ?a @ [(ex_hello, Some st, Some en,
                         if truthy_str (forced_src ?a) then forced_src ?a else None)]" by blast
  have t: "(case try_match_sentence exact_scorer ?a ex_hello False of
      None \<Rightarrow> False
    | Some a' \<Rightarrow> r_start (last (results a')) = Some 0 \<and> r_end (last (results a')) = Some 500)"
    by code_simp
  have e: "results ?a = []" by (simp add: ex_hello_aligner_def with_words_def init_aligner_def)
  have f: "truthy_str (forced_src ?a)" by (simp add: truthy_str_def str_def)
  have "results a' = [(ex_hello, Some 0, Some 500, Some (str ''b.wav''))]"
    using r t a' e f by (simp add: r_start_def r_end_def)
  then show ?thesis using a' by simp
qed

subsection \<open>The entries laid out by gap interpolation and approximation\<close>

lemma spread_Cons:
  "spread cur name ((s, d) # rest) =
     ((s, Some cur, Some (cur + d), Some name) # fst (spread (cur + d) name rest),
      snd (spread (cur + d) name rest))"
  by (simp split: prod.splits)

lemma length_spread [simp]: "length (fst (spread cur name xs)) = length xs"
proof (induction xs arbitrary: cur)
  case Nil
  show ?case by simp
next
  case (Cons x xs)
  obtain s d where x: "x = (s, d)" by (cases x) auto
  show ?case unfolding x spread_Cons using Cons.IH by simp
qed

lemma snd_spread: "snd (spread cur name xs) = cur + sum_list (map snd xs)"
proof (induction xs arbitrary: cur)
  case Nil
  show ?case by simp
next
  case (Cons x xs)
  obtain s d where x: "x = (s, d)" by (cases x) auto
  show ?case unfolding x spread_Cons using Cons.IH[of "cur + d"] by simp
qed

lemma spread_nth:
  "j < length xs \<Longrightarrow>
   fst (spread cur name xs) ! j =
     (fst (xs ! j), Some (cur + sum_list (take j (map snd xs))),
      Some (cur + sum_list (take j (map snd xs)) + snd (xs ! j)), Some name)"
proof (induction xs arbitrary: cur j)
  case Nil
  then show ?case by simp
next
  case (Cons x xs)
  obtain s d where x: "x = (s, d)" by (cases x) auto
  show ?case
  proof (cases j)
    case 0
    then show ?thesis unfolding x spread_Cons by simp
  next
    case (Suc j')
    then have "j' < length xs" using Cons.prems by simp
    from Cons.IH[OF this, of "cur + d"] show ?thesis
      unfolding x spread_Cons using Suc by (simp add: add.assoc)
  qed
qed

lemma spread_last_end:
  assumes "xs \<noteq> []"
  shows "r_end (last (fst (spread cur name xs))) = Some (cur + sum_list (map snd xs))"
proof -
  let ?n = "length xs - 1"
  have n: "?n < length xs" using assms by simp
  have ne: "fst (spread cur name xs) \<noteq> []"
    using assms by (metis length_spread length_0_conv)
  have "last (fst (spread cur name xs)) = fst (spread cur name xs) ! ?n"
    using last_conv_nth[OF ne] by simp
  also have "\<dots> = (fst (xs ! ?n), Some (cur + sum_list (take ?n (map snd xs))),
      Some (cur + sum_list (take ?n (map snd xs)) + snd (xs ! ?n)), Some name)"
    using n by (rule spread_nth)
  finally have "r_end (last (fst (spread cur name xs))) =
      Some (cur + sum_list (take ?n (map snd xs)) + snd (xs ! ?n))"
    by (simp add: r_end_def)
  moreover have "sum_list (take ?n (map snd xs)) + snd (xs ! ?n) = sum_list (map snd xs)"
  proof -
    have "map snd xs = take ?n (map snd xs) @ [snd (xs ! ?n)]"
      using assms n by (metis (no_types, lifting) One_nat_def Suc_pred length_greater_0_conv
          length_map nth_map take_Suc_conv_app_nth take_all order_refl)
    then have "sum_list (map snd xs) = sum_list (take ?n (map snd xs) @ [snd (xs ! ?n)])"
      by simp
    then show ?thesis by simp
  qed
  ultimately show ?thesis by (simp add: add.assoc)
qed

lemma force_last_noop:
  assumes "rs \<noteq> []" and "r_end (last rs) = Some e"
  shows "(case last rs of (s_last, st_last, en_last, src_last) \<Rightarrow>
            butlast rs @ [(s_last, st_last, Some e, src_last)]) = rs"
proof -
  obtain s st en src where l: "last rs = (s, st, en, src)" by (cases "last rs") auto
  then have "en = Some e" using assms(2) by (simp add: r_end_def)
  then show ?thesis using l assms(1) by (simp add: snoc_eq_iff_butlast)
qed

subsection \<open>The start position of the interpolating paths in closed form\<close>

lemma finite_file_ends:
  fixes rs :: "result_entry list"
  shows "finite {e. \<exists>s st. (s, st, Some e, Some name) \<in> set rs}"
proof -
  have "{e. \<exists>s st. (s, st, Some e, Some name) \<in> set rs} \<subseteq> (\<lambda>r. the (r_end r)) ` set rs"
    by (force simp: r_end_def)
  then show ?thesis by (rule finite_subset) simp
qed

lemma file_ends_Cons:
  fixes rs :: "result_entry list"
  shows "{e. \<exists>s st. (s, st, Some e, Some name) \<in> set ((s0, st0, en0, src0) # rs)} =
     (case en0 of Some e0 \<Rightarrow> if src0 = Some name then {e0} else {} | None \<Rightarrow> {}) \<union>
     {e. \<exists>s st. (s, st, Some e, Some name) \<in> set rs}"
  by (auto split: option.splits)

lemma last_end_ms_for_file_Max:
  "last_end_ms_for_file rs name latest =
     Max (insert latest {e. \<exists>s st. (s, st, Some e, Some name) \<in> set rs})"
proof (induction rs arbitrary: latest)
  case Nil
  then show ?case by simp
next
  case (Cons r rs)
  obtain s0 st0 en0 src0 where r: "r = (s0, st0, en0, src0)" by (cases r) auto
  let ?E = "{e. \<exists>s st. (s, st, Some e, Some name) \<in> set rs}"
  have f: "finite ?E" by (rule finite_file_ends)
  have m: "\<And>e l. Max (insert l (insert e ?E)) = Max (insert (max l e) ?E)"
  proof -
    fix e l :: int
    show "Max (insert l (insert e ?E)) = Max (insert (max l e) ?E)"
    proof (cases "?E = {}")
      case True
      then show ?thesis by (simp add: max.commute)
    next
      case False
      then show ?thesis using f by (simp add: max.assoc)
    qed
  qed
  show ?case
  proof (cases en0)
    case None
    then show ?thesis unfolding r file_ends_Cons using Cons.IH by simp
  next
    case (Some e0)
    show ?thesis
    proof (cases "src0 = Some name")
      case False
      then show ?thesis unfolding r file_ends_Cons using Some Cons.IH by simp
    next
      case True
      have "last_end_ms_for_file (r # rs) name latest = Max (insert (max latest e0) ?E)"
        unfolding r using Some True Cons.IH by (simp add: max_def)
      then show ?thesis unfolding r file_ends_Cons using Some True m[of latest e0] by simp
    qed
  qed
qed


lemma file_base_start_explicit:
  "file_base_start rs name fs =
     max fs (Max (insert fs {e. \<exists>s st. (s, st, Some e, Some name) \<in> set rs}) + 1)"
  by (simp add: file_base_start_def last_end_ms_for_file_Max)

lemma approx_start_le: "approx_start rs name fs fe \<le> fe"
  by (simp add: approx_start_def Let_def)

lemma approx_remaining_eq:
  "approx_remaining a name fs fe = fe - approx_start (results a) name fs fe"
  using approx_start_le[of "results a" name fs fe] by (simp add: approx_remaining_def)

lemma sum_list_replicate_zero: "sum_list (replicate n (0::int)) = 0"
  by (induction n) auto

lemma sum_weighted_durations_nonneg:
  assumes "0 \<le> t" and "ws \<noteq> []"
  shows "sum_list (weighted_durations t ws m) = t"
proof (cases "t = 0")
  case True
  then show ?thesis using assms(2)
    by (simp add: weighted_durations_def Let_def sum_list_replicate_zero)
next
  case False
  then show ?thesis using assms by (simp add: sum_list_weighted_durations)
qed

lemma length_approx_durs:
  "length (approx_durs a sl ce name fs fe) = length (approx_pending a sl ce)"
  by (simp add: approx_durs_def length_weighted_durations)

lemma sum_approx_durs:
  assumes "approx_pending a sl ce \<noteq> []"
  shows "sum_list (approx_durs a sl ce name fs fe) = approx_remaining a name fs fe"
proof -
  have "0 \<le> approx_remaining a name fs fe" by (simp add: approx_remaining_def)
  moreover have "map char_weight (approx_pending a sl ce) \<noteq> []" using assms by simp
  ultimately show ?thesis unfolding approx_durs_def by (rule sum_weighted_durations_nonneg)
qed

lemma length_approx_entries:
  "length (approx_entries a sl ce name fs fe) = length (approx_pending a sl ce)"
  by (simp add: approx_entries_def length_approx_durs)


lemma approx_entries_last_end:
  assumes "approx_pending a sl ce \<noteq> []"
  shows "r_end (last (approx_entries a sl ce name fs fe)) = Some fe"
proof -
  let ?z = "zip (approx_pending a sl ce) (approx_durs a sl ce name fs fe)"
  have "length ?z = length (approx_pending a sl ce)"
    by (simp add: length_approx_durs)
  then have ne: "?z \<noteq> []" using assms by (metis length_0_conv)
  have m: "map snd ?z = approx_durs a sl ce name fs fe"
    by (simp add: length_approx_durs)
  have "r_end (last (approx_entries a sl ce name fs fe)) =
        Some (approx_start (results a) name fs fe + sum_list (map snd ?z))"
    unfolding approx_entries_def using ne by (rule spread_last_end)
  then show ?thesis
    unfolding m sum_approx_durs[OF assms] approx_remaining_eq by simp
qed

lemma approx_fires:
  assumes "approximate_missing_chunk a sl ce_opt name fs fe = Some a'"
  shows "\<exists>ce. ce_opt = Some ce \<and> sent_idx a < ce \<and> approx_pending a sl ce \<noteq> [] \<and>
           results a' = results a @ approx_entries a sl ce name fs fe \<and>
           sent_idx a' = ce \<and> last_end_ms a' = fe \<and>
           r_end (last (results a')) = Some fe"
proof -
  from assms obtain ce where ce: "ce_opt = Some ce"
    by (cases ce_opt) (auto simp: approximate_missing_chunk_def)
  have lt: "sent_idx a < ce" and pe: "approx_pending a sl ce \<noteq> []"
    using assms ce by (auto simp: approximate_missing_chunk_def split: if_splits)
  let ?rs = "results a @ approx_entries a sl ce name fs fe"
  have ne: "approx_entries a sl ce name fs fe \<noteq> []"
    using pe length_approx_entries[of a sl ce name fs fe] by (metis length_0_conv)
  then have rne: "?rs \<noteq> []" by simp
  have le: "r_end (last ?rs) = Some fe"
    using ne approx_entries_last_end[OF pe, of name fs fe] by simp
  have noop: "(case last ?rs of (s_last, st_last, en_last, src_last) \<Rightarrow>
            butlast ?rs @ [(s_last, st_last, Some fe, src_last)]) = ?rs"
    using rne le by (rule force_last_noop)
  have "results a' = ?rs \<and> sent_idx a' = ce \<and> last_end_ms a' = fe"
    using assms ce lt pe rne noop
    by (auto simp: approximate_missing_chunk_def Let_def)
  then show ?thesis using ce lt pe le by auto
qed

subsection \<open>C4: the weighted approximation\<close>

lemma char_weight_pos: "1 \<le> char_weight s"
  by (simp add: char_weight_def)

lemma char_weights_nonneg: "\<forall>w\<in>set (map char_weight ss). 0 \<le> w"
proof
  fix w assume "w \<in> set (map char_weight ss)"
  then obtain s where "w = char_weight s" by auto
  then show "0 \<le> w" using char_weight_pos[of s] by simp
qed

lemma sum_char_weight_pos: "ss \<noteq> [] \<Longrightarrow> 0 < sum_list (map char_weight ss)"
proof (induction ss)
  case Nil
  then show ?case by simp
next
  case (Cons s ss)
  have "1 \<le> char_weight s" by (rule char_weight_pos)
  moreover have "0 \<le> sum_list (map char_weight ss)"
    using char_weights_nonneg by (rule sum_list_nonneg_int)
  ultimately show ?case by simp
qed




subsection \<open>Tiling and minimum spans of the interpolated entries\<close>

lemma spread_tiles: "tiles_from cur (fst (spread cur name xs))"
proof -
  have first: "xs \<noteq> [] \<Longrightarrow> r_start (fst (spread cur name xs) ! 0) = Some cur"
    using spread_nth[of 0 xs cur name] by (simp add: r_start_def)
  have next_one: "\<And>j. j + 1 < length xs \<Longrightarrow>
      r_start (fst (spread cur name xs) ! (j + 1)) = r_end (fst (spread cur name xs) ! j)"
  proof -
    fix j assume j: "j + 1 < length xs"
    then have j0: "j < length xs" by simp
    have t: "take (j + 1) (map snd xs) = take j (map snd xs) @ [snd (xs ! j)]"
      using j0 by (simp add: take_Suc_conv_app_nth)
    show "r_start (fst (spread cur name xs) ! (j + 1)) = r_end (fst (spread cur name xs) ! j)"
      using spread_nth[OF j, of cur name] spread_nth[OF j0, of cur name] t
      by (simp add: r_start_def r_end_def)
  qed
  show ?thesis unfolding tiles_from_def using first next_one
    by (metis length_spread length_0_conv)
qed

lemma spread_min_span:
  assumes "\<forall>x\<in>set xs. d \<le> snd x"
  shows "min_span d (fst (spread cur name xs))"
  unfolding min_span_def
proof
  fix e assume "e \<in> set (fst (spread cur name xs))"
  then obtain j where j: "j < length xs" and e: "e = fst (spread cur name xs) ! j"
    by (auto simp: in_set_conv_nth)
  have "d \<le> snd (xs ! j)" using assms j by simp
  then show "\<exists>st en. r_start e = Some st \<and> r_end e = Some en \<and> st + d \<le> en"
    unfolding e spread_nth[OF j] by (simp add: r_start_def r_end_def)
qed

lemma zip_snd_bound:
  assumes "\<forall>j<length ds. d \<le> ds ! j"
  shows "\<forall>x\<in>set (zip ps ds). d \<le> snd x"
proof
  fix x assume "x \<in> set (zip ps ds)"
  then have "snd x \<in> set ds" by (metis in_set_zipE prod.collapse)
  then obtain j where "j < length ds" "snd x = ds ! j" by (metis in_set_conv_nth)
  then show "d \<le> snd x" using assms by simp
qed

lemma weighted_durations_zero: "ws \<noteq> [] \<Longrightarrow> weighted_durations 0 ws m = replicate (length ws) 0"
  by (simp add: weighted_durations_def Let_def)

lemma weighted_durations_nonneg_entries:
  assumes "\<forall>w\<in>set ws. 0 \<le> w" and "t = 0 \<or> int (length ws) \<le> t" and "j < length ws"
  shows "0 \<le> weighted_durations t ws MIN_MATCH_MS ! j"
proof (cases "t = 0")
  case True
  have "ws \<noteq> []" using assms(3) by auto
  then show ?thesis using True assms(3) by (simp add: weighted_durations_zero)
next
  case False
  have ne: "ws \<noteq> []" using assms(3) by auto
  have "int (length ws) \<le> t" using assms(2) False by simp
  then have "1 \<le> weighted_durations t ws MIN_MATCH_MS ! j"
    using weighted_durations_all_ge[OF ne _ assms(1) _ assms(3)] by (simp add: MIN_MATCH_MS_def)
  then show ?thesis by simp
qed

lemma weighted_durations_roomy_ge:
  assumes "\<forall>w\<in>set ws. 0 \<le> w" and "sum_list ws \<noteq> 0"
    and "MIN_MATCH_MS * int (length ws) \<le> t" and "j < length ws"
  shows "MIN_MATCH_MS - 1 \<le> weighted_durations t ws MIN_MATCH_MS ! j"
proof -
  have ne: "ws \<noteq> []" using assms(4) by auto
  have n: "int (length ws) \<le> t" using assms(3) by (simp add: MIN_MATCH_MS_def)
  have c: "of_int MIN_MATCH_MS * of_nat (length ws) \<le> (of_int t :: rat)"
  proof -
    have "(of_int (MIN_MATCH_MS * int (length ws)) :: rat) \<le> of_int t"
      using assms(3) by (simp only: of_int_le_iff)
    then show ?thesis by simp
  qed
  have sw: "0 < sum_list ws"
    using sum_list_nonneg_int[OF assms(1)] assms(2) by simp
  have wj: "0 \<le> ws ! j" using assms(1,4) by simp
  have "0 \<le> (of_int t - of_int MIN_MATCH_MS * of_nat (length ws)) *
              ((of_int (ws ! j) :: rat) / of_int (sum_list ws))"
    using c wj sw by (intro mult_nonneg_nonneg divide_nonneg_nonneg) simp_all
  then have raw: "(of_int MIN_MATCH_MS :: rat) \<le> raw_shares t ws MIN_MATCH_MS ! j"
    using assms(4) sw by (simp add: raw_shares_roomy[OF c])
  have near: "\<bar>of_int (weighted_durations t ws MIN_MATCH_MS ! j) - raw_shares t ws MIN_MATCH_MS ! j\<bar> \<le> 3 / 2"
    using weighted_durations_near_share[OF ne n assms(1) _ assms(2) assms(4)]
    by (simp add: MIN_MATCH_MS_def)
  have "(of_int MIN_MATCH_MS :: rat) - 3 / 2 \<le> of_int (weighted_durations t ws MIN_MATCH_MS ! j)"
    using raw near by linarith
  then have "(of_int (MIN_MATCH_MS - 2) :: rat) < of_int (weighted_durations t ws MIN_MATCH_MS ! j)"
    by simp
  then have "MIN_MATCH_MS - 2 < weighted_durations t ws MIN_MATCH_MS ! j"
    by (simp only: of_int_less_iff)
  then show ?thesis by simp
qed

lemma approx_entries_tiles:
  "tiles_from (approx_start (results a) name fs fe) (approx_entries a sl ce name fs fe)"
  unfolding approx_entries_def by (rule spread_tiles)

lemma approx_entries_nonneg:
  assumes "approx_remaining a name fs fe = 0 \<or>
           int (length (approx_pending a sl ce)) \<le> approx_remaining a name fs fe"
  shows "min_span 0 (approx_entries a sl ce name fs fe)"
  unfolding approx_entries_def
proof (rule spread_min_span, rule zip_snd_bound, intro allI impI)
  fix j assume "j < length (approx_durs a sl ce name fs fe)"
  then have j: "j < length (map char_weight (approx_pending a sl ce))"
    by (simp add: length_approx_durs)
  show "0 \<le> approx_durs a sl ce name fs fe ! j"
    unfolding approx_durs_def
    by (rule weighted_durations_nonneg_entries[OF char_weights_nonneg _ j]) (use assms in simp)
qed

lemma approx_entries_roomy:
  assumes "MIN_MATCH_MS * int (length (approx_pending a sl ce)) \<le> approx_remaining a name fs fe"
  shows "min_span (MIN_MATCH_MS - 1) (approx_entries a sl ce name fs fe)"
  unfolding approx_entries_def
proof (rule spread_min_span, rule zip_snd_bound, intro allI impI)
  fix j assume "j < length (approx_durs a sl ce name fs fe)"
  then have j: "j < length (map char_weight (approx_pending a sl ce))"
    by (simp add: length_approx_durs)
  then have pe: "approx_pending a sl ce \<noteq> []" by auto
  have W: "sum_list (map char_weight (approx_pending a sl ce)) \<noteq> 0"
    using sum_char_weight_pos[OF pe] by simp
  show "MIN_MATCH_MS - 1 \<le> approx_durs a sl ce name fs fe ! j"
    unfolding approx_durs_def
    by (rule weighted_durations_roomy_ge[OF char_weights_nonneg W _ j]) (use assms in simp)
qed

subsection \<open>What anchor recovery appends\<close>

lemma gap_spread_tiles: "tiles_from base (fst (gap_spread base anchor_start pending name))"
proof (cases "pending = []")
  case True
  then show ?thesis by (simp add: gap_spread_def tiles_from_def)
next
  case False
  then show ?thesis by (simp add: gap_spread_def Let_def spread_tiles)
qed

lemma gap_spread_length: "length (fst (gap_spread base anchor_start pending name)) = length pending"
  by (simp add: gap_spread_def Let_def length_weighted_durations)

lemma gap_spread_cur:
  "snd (gap_spread base anchor_start pending name) = base + max 0 (anchor_start - base) \<or>
   (pending = [] \<and> snd (gap_spread base anchor_start pending name) = base)"
proof (cases "pending = []")
  case True
  then show ?thesis by (simp add: gap_spread_def)
next
  case False
  let ?g = "max 0 (anchor_start - base)"
  let ?d = "weighted_durations ?g (map char_weight pending) MIN_MATCH_MS"
  have m: "map snd (zip pending ?d) = ?d" by (simp add: length_weighted_durations)
  have s: "sum_list ?d = ?g"
    by (rule sum_weighted_durations_nonneg) (use False in simp_all)
  show ?thesis using False by (simp add: gap_spread_def Let_def snd_spread m s)
qed

lemma gap_spread_last_end:
  assumes "pending \<noteq> []"
  shows "r_end (last (fst (gap_spread base anchor_start pending name))) =
         Some (snd (gap_spread base anchor_start pending name))"
proof -
  let ?g = "max 0 (anchor_start - base)"
  let ?d = "weighted_durations ?g (map char_weight pending) MIN_MATCH_MS"
  have "length (zip pending ?d) = length pending" by (simp add: length_weighted_durations)
  then have ne: "zip pending ?d \<noteq> []" using assms by (metis length_0_conv)
  show ?thesis using assms spread_last_end[OF ne, of base name]
    by (simp add: gap_spread_def Let_def snd_spread)
qed

lemma gap_spread_nonneg:
  assumes "anchor_start - base \<le> 0 \<or> int (length pending) \<le> anchor_start - base"
  shows "min_span 0 (fst (gap_spread base anchor_start pending name))"
proof (cases "pending = []")
  case True
  then show ?thesis by (simp add: gap_spread_def min_span_def)
next
  case False
  let ?g = "max 0 (anchor_start - base)"
  let ?d = "weighted_durations ?g (map char_weight pending) MIN_MATCH_MS"
  have "min_span 0 (fst (spread base name (zip pending ?d)))"
  proof (rule spread_min_span, rule zip_snd_bound, intro allI impI)
    fix j assume "j < length ?d"
    then have j: "j < length (map char_weight pending)" by (simp add: length_weighted_durations)
    show "0 \<le> ?d ! j"
      by (rule weighted_durations_nonneg_entries[OF char_weights_nonneg _ j]) (use assms in auto)
  qed
  then show ?thesis using False by (simp add: gap_spread_def Let_def)
qed

lemma gap_spread_roomy:
  assumes "MIN_MATCH_MS * int (length pending) \<le> anchor_start - base"
  shows "min_span (MIN_MATCH_MS - 1) (fst (gap_spread base anchor_start pending name))"
proof (cases "pending = []")
  case True
  then show ?thesis by (simp add: gap_spread_def min_span_def)
next
  case False
  let ?g = "max 0 (anchor_start - base)"
  let ?d = "weighted_durations ?g (map char_weight pending) MIN_MATCH_MS"
  have W: "sum_list (map char_weight pending) \<noteq> 0"
    using sum_char_weight_pos[OF False] by simp
  have "min_span (MIN_MATCH_MS - 1) (fst (spread base name (zip pending ?d)))"
  proof (rule spread_min_span, rule zip_snd_bound, intro allI impI)
    fix j assume "j < length ?d"
    then have j: "j < length (map char_weight pending)" by (simp add: length_weighted_durations)
    show "MIN_MATCH_MS - 1 \<le> ?d ! j"
      by (rule weighted_durations_roomy_ge[OF char_weights_nonneg W _ j]) (use assms in simp)
  qed
  then show ?thesis using False by (simp add: gap_spread_def Let_def)
qed

lemma gap_anchor_start_ge: "base \<le> gap_anchor_start base n st fe \<or> gap_anchor_start base n st fe = fe"
  by (auto simp: gap_anchor_start_def Let_def min_def MIN_MATCH_MS_def)

lemma gap_anchor_start_room:
  assumes "base + MIN_MATCH_MS * int n \<le> fe"
  shows "MIN_MATCH_MS * int n \<le> gap_anchor_start base n st fe - base"
  using assms by (auto simp: gap_anchor_start_def Let_def min_def)

lemma anchor_commit_uncapped:
  assumes "anchor_commit anchor_start cur st en fs fe = (st2, en2)" and "en2 < fe"
  shows "cur \<le> st2 \<and> anchor_start \<le> st2 \<and> st2 + MIN_MATCH_MS \<le> en2"
proof -
  define st1 where "st1 = max (max anchor_start st) cur"
  define en1 where "en1 = max en (st1 + MIN_MATCH_MS)"
  have a: "cur \<le> st1" "anchor_start \<le> st1" by (simp_all add: st1_def)
  have b: "st1 + MIN_MATCH_MS \<le> en1" by (simp add: en1_def)
  have c: "anchor_commit anchor_start cur st en fs fe =
           (if en1 > fe then (if fe < st1 then max fs (fe - MIN_MATCH_MS) else st1, fe)
            else (st1, en1))"
    by (simp add: anchor_commit_def Let_def st1_def en1_def)
  have "\<not> en1 > fe" using assms c by (auto split: if_splits)
  then have "st2 = st1" "en2 = en1" using assms c by auto
  then show ?thesis using a b by simp
qed

lemma find_anchor_range:
  "find_anchor score a sl js = Inr (Some (j, h)) \<Longrightarrow>
   j \<in> set js \<and> j < length sl \<and> try_match_sentence_core score a (sl ! j) True = Some h"
  by (induction js) (auto split: if_splits option.splits)

lemma recover_fires:
  assumes "recover_with_anchor score a sl ce_opt name fs fe lookahead = Inr (Some a')"
  shows "\<exists>anchor_idx st en src_win end_idx.
           sent_idx a < anchor_idx \<and> anchor_idx < length sl \<and>
           try_match_sentence_core score a (sl ! anchor_idx) True = Some (st, en, src_win, end_idx) \<and>
           (let base = file_base_start (results a) name fs;
                pending = slice sl (sent_idx a) anchor_idx;
                anchor_start = gap_anchor_start base (length pending) st fe;
                gap = fst (gap_spread base anchor_start pending name);
                cur = snd (gap_spread base anchor_start pending name);
                st2 = fst (anchor_commit anchor_start cur st en fs fe);
                en2 = snd (anchor_commit anchor_start cur st en fs fe)
            in pending \<noteq> [] \<and>
               results a' = results a @ gap @ [(sl ! anchor_idx, Some st2, Some en2, Some name)] \<and>
               sent_idx a' = anchor_idx + 1 \<and> last_end_ms a' = en2 \<and> last_start_ms a' = st2)"
proof -
  from assms obtain ce where ce: "ce_opt = Some ce"
    by (cases ce_opt) (auto simp: recover_with_anchor_def)
  have lt: "sent_idx a < ce"
    using assms ce by (auto simp: recover_with_anchor_def Let_def split: if_splits)
  let ?js = "[sent_idx a + 1 ..< min ce (sent_idx a + max 1 lookahead + 1)]"
  obtain anchor_idx st en src_win end_idx where
    fa: "find_anchor score a sl ?js = Inr (Some (anchor_idx, (st, en, src_win, end_idx)))"
    using assms ce lt
    by (auto simp: recover_with_anchor_def Let_def split: sum.splits option.splits prod.splits)
  from find_anchor_range[OF fa] have rng: "sent_idx a < anchor_idx" "anchor_idx < length sl"
    and core: "try_match_sentence_core score a (sl ! anchor_idx) True = Some (st, en, src_win, end_idx)"
    by auto
  have pne: "slice sl (sent_idx a) anchor_idx \<noteq> []"
    using rng by (simp add: slice_def)
  have "results a' = results a @
          fst (gap_spread (file_base_start (results a) name fs)
                 (gap_anchor_start (file_base_start (results a) name fs)
                    (length (slice sl (sent_idx a) anchor_idx)) st fe)
                 (slice sl (sent_idx a) anchor_idx) name) @
          [(sl ! anchor_idx,
            Some (fst (anchor_commit
                    (gap_anchor_start (file_base_start (results a) name fs)
                       (length (slice sl (sent_idx a) anchor_idx)) st fe)
                    (snd (gap_spread (file_base_start (results a) name fs)
                       (gap_anchor_start (file_base_start (results a) name fs)
                          (length (slice sl (sent_idx a) anchor_idx)) st fe)
                       (slice sl (sent_idx a) anchor_idx) name)) st en fs fe)),
            Some (snd (anchor_commit
                    (gap_anchor_start (file_base_start (results a) name fs)
                       (length (slice sl (sent_idx a) anchor_idx)) st fe)
                    (snd (gap_spread (file_base_start (results a) name fs)
                       (gap_anchor_start (file_base_start (results a) name fs)
                          (length (slice sl (sent_idx a) anchor_idx)) st fe)
                       (slice sl (sent_idx a) anchor_idx) name)) st en fs fe)),
            Some name)] \<and>
        sent_idx a' = anchor_idx + 1 \<and>
        last_end_ms a' = snd (anchor_commit
                    (gap_anchor_start (file_base_start (results a) name fs)
                       (length (slice sl (sent_idx a) anchor_idx)) st fe)
                    (snd (gap_spread (file_base_start (results a) name fs)
                       (gap_anchor_start (file_base_start (results a) name fs)
                          (length (slice sl (sent_idx a) anchor_idx)) st fe)
                       (slice sl (sent_idx a) anchor_idx) name)) st en fs fe) \<and>
        last_start_ms a' = fst (anchor_commit
                    (gap_anchor_start (file_base_start (results a) name fs)
                       (length (slice sl (sent_idx a) anchor_idx)) st fe)
                    (snd (gap_spread (file_base_start (results a) name fs)
                       (gap_anchor_start (file_base_start (results a) name fs)
                          (length (slice sl (sent_idx a) anchor_idx)) st fe)
                       (slice sl (sent_idx a) anchor_idx) name)) st en fs fe)"
    using assms ce lt fa
    by (auto simp: recover_with_anchor_def Let_def split: prod.splits)
  then show ?thesis using rng core pne unfolding Let_def by blast
qed

subsection \<open>What resume priming appends\<close>

lemma prime_loop_results:
  "results (fst (prime_loop a k xs)) = results a @ map primed_entry (takeWhile primable xs)"
proof (induction xs arbitrary: a k)
  case Nil
  show ?case by simp
next
  case (Cons x xs)
  obtain item sent where x: "x = (item, sent)" by (cases x) auto
  show ?case
  proof (cases "primable x")
    case False
    then show ?thesis unfolding x
      by (auto simp: primable_def split: option.splits)
  next
    case True
    then obtain st where st: "j_start item = Some st"
      and tx: "py_strip (j_text item) = py_strip (s_text sent)"
      unfolding x by (auto simp: primable_def)
    let ?en = "case j_end item of Some en \<Rightarrow> en | None \<Rightarrow> st"
    let ?a = "a\<lparr>results := results a @ [(sent, Some st, Some ?en, j_audio item)],
                 last_start_ms := st, last_end_ms := ?en\<rparr>"
    have unf: "prime_loop a k (x # xs) = prime_loop ?a (k + 1) xs"
      unfolding x using st tx by (simp add: Let_def)
    have pe: "primed_entry x = (sent, Some st, Some ?en, j_audio item)"
      unfolding x using st by (simp add: primed_entry_def split: option.splits)
    show ?thesis unfolding unf Cons.IH using True pe by simp
  qed
qed

lemma prime_from_existing_results:
  "results (prime_from_existing items ss a) =
     results a @ map primed_entry (takeWhile primable (zip items ss))"
proof -
  obtain a1 k where r: "prime_loop a 0 (zip items ss) = (a1, k)"
    by (cases "prime_loop a 0 (zip items ss)") auto
  have "results a1 = results a @ map primed_entry (takeWhile primable (zip items ss))"
    using prime_loop_results[of a 0 "zip items ss"] r by simp
  then show ?thesis by (simp add: prime_from_existing_def Let_def r)
qed

subsection \<open>The commit paths, one lemma each\<close>

lemma fuzzy_commit:
  assumes "try_match_sentence score a s aggressive = Some a'"
  shows "\<exists>st en src. results a' = results a @ [(s, Some st, Some en, src)] \<and>
           last_end_ms a + 1 \<le> st \<and> st + MIN_MATCH_MS \<le> en \<and> last_end_ms a' = en"
proof -
  from assms obtain st en src_win end_idx where
    h: "try_match_sentence_core score a s aggressive = Some (st, en, src_win, end_idx)"
    by (auto simp: try_match_sentence_def split: option.splits)
  have t: "last_end_ms a + 1 \<le> st \<and> st + MIN_MATCH_MS \<le> en"
    using core_hit_times[OF h] by simp
  have "results a' = results a @ [(s, Some st, Some en,
          if truthy_str (forced_src a) then forced_src a else src_win)] \<and> last_end_ms a' = en"
    using assms h by (auto simp: try_match_sentence_def Let_def)
  then show ?thesis using t by blast
qed

lemma approx_commit:
  assumes "approximate_missing_chunk a sl ce_opt name fs fe = Some a'"
  shows "\<exists>new. results a' = results a @ new \<and> new \<noteq> [] \<and>
           tiles_from (approx_start (results a) name fs fe) new \<and>
           r_end (last new) = Some fe \<and> last_end_ms a' = fe \<and>
           (approx_remaining a name fs fe = 0 \<or>
            int (length new) \<le> approx_remaining a name fs fe \<longrightarrow> min_span 0 new) \<and>
           (MIN_MATCH_MS * int (length new) \<le> approx_remaining a name fs fe \<longrightarrow>
              min_span (MIN_MATCH_MS - 1) new)"
proof -
  from approx_fires[OF assms] obtain ce where pe: "approx_pending a sl ce \<noteq> []"
    and rs: "results a' = results a @ approx_entries a sl ce name fs fe"
    and le: "last_end_ms a' = fe"
    by blast
  let ?new = "approx_entries a sl ce name fs fe"
  have len: "length ?new = length (approx_pending a sl ce)" by (rule length_approx_entries)
  have ne: "?new \<noteq> []" using pe len by (metis length_0_conv)
  have a: "approx_remaining a name fs fe = 0 \<or>
            int (length ?new) \<le> approx_remaining a name fs fe \<longrightarrow> min_span 0 ?new"
    using approx_entries_nonneg[of a name fs fe sl ce] len by simp
  have b: "MIN_MATCH_MS * int (length ?new) \<le> approx_remaining a name fs fe \<longrightarrow>
              min_span (MIN_MATCH_MS - 1) ?new"
    using approx_entries_roomy[of a sl ce name fs fe] len by simp
  show ?thesis
    using rs ne approx_entries_tiles[of a name fs fe sl ce]
      approx_entries_last_end[OF pe, of name fs fe] le a b
    by blast
qed

lemma recover_commit:
  assumes "recover_with_anchor score a sl ce_opt name fs fe lookahead = Inr (Some a')"
  shows "\<exists>gap anchor st2 en2 cur.
           results a' = results a @ gap @ [(anchor, Some st2, Some en2, Some name)] \<and>
           gap \<noteq> [] \<and> tiles_from (file_base_start (results a) name fs) gap \<and>
           r_end (last gap) = Some cur \<and> last_end_ms a' = en2 \<and>
           (en2 < fe \<longrightarrow> cur \<le> st2 \<and> st2 + MIN_MATCH_MS \<le> en2) \<and>
           (file_base_start (results a) name fs + MIN_MATCH_MS * int (length gap) \<le> fe \<longrightarrow>
              min_span (MIN_MATCH_MS - 1) gap)"
proof -
  from recover_fires[OF assms] obtain anchor_idx st en where
    f: "(let base = file_base_start (results a) name fs;
                pending = slice sl (sent_idx a) anchor_idx;
                anchor_start = gap_anchor_start base (length pending) st fe;
                gap = fst (gap_spread base anchor_start pending name);
                cur = snd (gap_spread base anchor_start pending name);
                st2 = fst (anchor_commit anchor_start cur st en fs fe);
                en2 = snd (anchor_commit anchor_start cur st en fs fe)
            in pending \<noteq> [] \<and>
               results a' = results a @ gap @ [(sl ! anchor_idx, Some st2, Some en2, Some name)] \<and>
               sent_idx a' = anchor_idx + 1 \<and> last_end_ms a' = en2 \<and> last_start_ms a' = st2)"
    by blast
  define base where "base = file_base_start (results a) name fs"
  define pending where "pending = slice sl (sent_idx a) anchor_idx"
  define anchor_start where "anchor_start = gap_anchor_start base (length pending) st fe"
  define gap where "gap = fst (gap_spread base anchor_start pending name)"
  define cur where "cur = snd (gap_spread base anchor_start pending name)"
  define st2 where "st2 = fst (anchor_commit anchor_start cur st en fs fe)"
  define en2 where "en2 = snd (anchor_commit anchor_start cur st en fs fe)"
  have pne: "pending \<noteq> []"
    and rs: "results a' = results a @ gap @ [(sl ! anchor_idx, Some st2, Some en2, Some name)]"
    and le: "last_end_ms a' = en2"
    using f unfolding Let_def base_def pending_def anchor_start_def gap_def cur_def st2_def en2_def
    by simp_all
  have len: "length gap = length pending" unfolding gap_def by (rule gap_spread_length)
  have gne: "gap \<noteq> []" using pne len by (metis length_0_conv)
  have tl: "tiles_from base gap" unfolding gap_def by (rule gap_spread_tiles)
  have lend: "r_end (last gap) = Some cur"
    unfolding gap_def cur_def using pne by (rule gap_spread_last_end)
  have ac: "anchor_commit anchor_start cur st en fs fe = (st2, en2)"
    by (simp add: st2_def en2_def)
  have unc: "en2 < fe \<longrightarrow> cur \<le> st2 \<and> st2 + MIN_MATCH_MS \<le> en2"
    using anchor_commit_uncapped[OF ac] by blast
  have room: "base + MIN_MATCH_MS * int (length gap) \<le> fe \<longrightarrow> min_span (MIN_MATCH_MS - 1) gap"
  proof
    assume "base + MIN_MATCH_MS * int (length gap) \<le> fe"
    then have "base + MIN_MATCH_MS * int (length pending) \<le> fe" using len by simp
    then have "MIN_MATCH_MS * int (length pending) \<le> anchor_start - base"
      unfolding anchor_start_def by (rule gap_anchor_start_room)
    then show "min_span (MIN_MATCH_MS - 1) gap"
      unfolding gap_def by (rule gap_spread_roomy)
  qed
  show ?thesis using rs gne tl lend le unc room unfolding base_def by blast
qed

lemma min_span_weaken: "min_span d new \<Longrightarrow> d' \<le> d \<Longrightarrow> min_span d' new"
  unfolding min_span_def by (meson add_left_mono order_trans)

subsection \<open>C1: the order of the committed times\<close>

text \<open>
  The interpolating paths lay their entries end to end
  (\<^verbatim>\<open>st = cur; en = cur + dur; cur = en\<close>, lines 2655-2660 and 2709-2714): the weighted
  approximation of two sentences over a file of one second gives the spans 1..500 and
  500..1000, and the second starts where the first ends, not 1 ms later.
\<close>

lemma approximated_entries_touch:
  "(case approximate_missing_chunk (init_aligner [ex_sentence ''aaaa'', ex_sentence ''bbbb''])
          [ex_sentence ''aaaa'', ex_sentence ''bbbb''] (Some 2) (str ''b.wav'') 0 1000 of
      None \<Rightarrow> False
    | Some a' \<Rightarrow>
        results a' = [(ex_sentence ''aaaa'', Some 1, Some 500, Some (str ''b.wav'')),
                      (ex_sentence ''bbbb'', Some 500, Some 1000, Some (str ''b.wav''))]) \<and>
   \<not> (500 :: int) \<ge> 500 + 1"
proof -
  have "(case approximate_missing_chunk (init_aligner [ex_sentence ''aaaa'', ex_sentence ''bbbb''])
          [ex_sentence ''aaaa'', ex_sentence ''bbbb''] (Some 2) (str ''b.wav'') 0 1000 of
      None \<Rightarrow> False
    | Some a' \<Rightarrow>
        results a' = [(ex_sentence ''aaaa'', Some 1, Some 500, Some (str ''b.wav'')),
                      (ex_sentence ''bbbb'', Some 500, Some 1000, Some (str ''b.wav''))])"
    by code_simp
  then show ?thesis by simp
qed

text \<open>
  C1: after every commit path each timed entry has \<open>end_ms \<ge> start_ms\<close> and starts at
  least 1 ms after the previous timed entry ends. The program announces strictly
  monotonic timestamps (module docstring; comments of lines 1279 and 2717), and anchor
  recovery breaks them. The fuzzy matcher stretches a short match to \<open>MIN_MATCH_MS\<close>
  without looking at the end of the file (lines 1433-1434), so \<open>alpha\<close> is committed as
  1850..2050 in a file that ends at 2000. Anchor recovery then starts the gap at 2051,
  caps \<open>anchor_start\<close> at \<open>file_end_ms = 2000\<close> (line 2705), gives the gap sentence the
  empty span 2051..2051, and cuts the anchor at the file end and moves its start back
  to \<open>file_end_ms - MIN_MATCH_MS\<close> (lines 2720-2723): the anchor is committed as
  1800..2000, before the gap entry and before \<open>alpha\<close>.
\<close>

theorem anchor_recovery_goes_back_in_time:
  "(case try_match_sentence exact_scorer ex_back_aligner (ex_sentence ''alpha'') False of
      None \<Rightarrow> False
    | Some a1 \<Rightarrow>
        map snd (results a1) = [(Some 1850, Some 2050, Some (str ''b.wav''))] \<and>
        (case recover_with_anchor exact_scorer a1 ex_back_sentences (Some 3) (str ''b.wav'')
                0 2000 RECOVER_LOOKAHEAD_SENTENCES of
           Inr (Some a2) \<Rightarrow>
             map snd (results a2) = [(Some 1850, Some 2050, Some (str ''b.wav'')),
                                     (Some 2051, Some 2051, Some (str ''b.wav'')),
                                     (Some 1800, Some 2000, Some (str ''b.wav''))]
         | _ \<Rightarrow> False)) \<and>
   \<not> (1800 :: int) \<ge> 2051 + 1 \<and> \<not> (1800 :: int) \<ge> 2050 + 1"
proof -
  have "(case try_match_sentence exact_scorer ex_back_aligner (ex_sentence ''alpha'') False of
      None \<Rightarrow> False
    | Some a1 \<Rightarrow>
        map snd (results a1) = [(Some 1850, Some 2050, Some (str ''b.wav''))] \<and>
        (case recover_with_anchor exact_scorer a1 ex_back_sentences (Some 3) (str ''b.wav'')
                0 2000 RECOVER_LOOKAHEAD_SENTENCES of
           Inr (Some a2) \<Rightarrow>
             map snd (results a2) = [(Some 1850, Some 2050, Some (str ''b.wav'')),
                                     (Some 2051, Some 2051, Some (str ''b.wav'')),
                                     (Some 1800, Some 2000, Some (str ''b.wav''))]
         | _ \<Rightarrow> False))"
    by code_simp
  then show ?thesis by simp
qed
subsection \<open>C2: the minimum span of a committed sentence\<close>

lemma anchor_commit_le: "snd (anchor_commit anchor_start cur st en fs fe) \<le> fe"
  by (auto simp: anchor_commit_def Let_def)

lemma recover_anchor_capped:
  assumes "recover_with_anchor score a sl ce_opt name fs fe lookahead = Inr (Some a')"
    and "results a' \<noteq> []" and "r_end (last (results a')) = Some en2"
  shows "en2 \<le> fe"
proof -
  from recover_fires[OF assms(1)] obtain anchor_idx st en where
    f: "(let base = file_base_start (results a) name fs;
                pending = slice sl (sent_idx a) anchor_idx;
                anchor_start = gap_anchor_start base (length pending) st fe;
                gap = fst (gap_spread base anchor_start pending name);
                cur = snd (gap_spread base anchor_start pending name);
                st2 = fst (anchor_commit anchor_start cur st en fs fe);
                en2 = snd (anchor_commit anchor_start cur st en fs fe)
            in pending \<noteq> [] \<and>
               results a' = results a @ gap @ [(sl ! anchor_idx, Some st2, Some en2, Some name)] \<and>
               sent_idx a' = anchor_idx + 1 \<and> last_end_ms a' = en2 \<and> last_start_ms a' = st2)"
    by blast
  then obtain anchor_start cur pre st2 where
    "results a' = pre @ [(sl ! anchor_idx, Some st2,
        Some (snd (anchor_commit anchor_start cur st en fs fe)), Some name)]"
    unfolding Let_def by (metis append.assoc)
  then have "r_end (last (results a')) = Some (snd (anchor_commit anchor_start cur st en fs fe))"
    by (simp add: r_end_def)
  then show ?thesis using assms(3) anchor_commit_le[of anchor_start cur st en fs fe] by simp
qed

text \<open>
  C2 (as stated): every sentence committed with a time span, by the fuzzy matcher, the
  gap interpolation or the weighted approximation, spans at least \<open>MIN_MATCH_MS\<close>.
  \<^verbatim>\<open>_weighted_durations\<close> lowers the floor to \<open>total_ms / n\<close> when the span is shorter than
  \<open>n * MIN_MATCH_MS\<close>: two sentences approximated over a file of 300 ms get 149 ms and
  150 ms. With room for the floor the rounding can still take 1 ms: four sentences of
  1, 5, 5 and 5 characters over 802 ms get 199, 201, 201 and 201 ms.
\<close>

theorem approximated_span_below_floor:
  "(case approximate_missing_chunk (init_aligner [ex_sentence ''aaaa'', ex_sentence ''bbbb''])
          [ex_sentence ''aaaa'', ex_sentence ''bbbb''] (Some 2) (str ''b.wav'') 0 300 of
      None \<Rightarrow> False
    | Some a' \<Rightarrow>
        map snd (results a') = [(Some 1, Some 150, Some (str ''b.wav'')),
                                (Some 150, Some 300, Some (str ''b.wav''))]) \<and>
   (case approximate_missing_chunk
           (init_aligner [ex_sentence ''a'', ex_sentence ''bbbbb'', ex_sentence ''ccccc'',
                          ex_sentence ''ddddd''])
           [ex_sentence ''a'', ex_sentence ''bbbbb'', ex_sentence ''ccccc'', ex_sentence ''ddddd'']
           (Some 4) (str ''b.wav'') 0 803 of
      None \<Rightarrow> False
    | Some a' \<Rightarrow>
        map snd (results a') = [(Some 1, Some 200, Some (str ''b.wav'')),
                                (Some 200, Some 401, Some (str ''b.wav'')),
                                (Some 401, Some 602, Some (str ''b.wav'')),
                                (Some 602, Some 803, Some (str ''b.wav''))]) \<and>
   (150 :: int) - 1 < MIN_MATCH_MS \<and> (200 :: int) - 1 < MIN_MATCH_MS"
proof -
  have a: "(case approximate_missing_chunk (init_aligner [ex_sentence ''aaaa'', ex_sentence ''bbbb''])
          [ex_sentence ''aaaa'', ex_sentence ''bbbb''] (Some 2) (str ''b.wav'') 0 300 of
      None \<Rightarrow> False
    | Some a' \<Rightarrow>
        map snd (results a') = [(Some 1, Some 150, Some (str ''b.wav'')),
                                (Some 150, Some 300, Some (str ''b.wav''))])"
    by code_simp
  have b: "(case approximate_missing_chunk
           (init_aligner [ex_sentence ''a'', ex_sentence ''bbbbb'', ex_sentence ''ccccc'',
                          ex_sentence ''ddddd''])
           [ex_sentence ''a'', ex_sentence ''bbbbb'', ex_sentence ''ccccc'', ex_sentence ''ddddd'']
           (Some 4) (str ''b.wav'') 0 803 of
      None \<Rightarrow> False
    | Some a' \<Rightarrow>
        map snd (results a') = [(Some 1, Some 200, Some (str ''b.wav'')),
                                (Some 200, Some 401, Some (str ''b.wav'')),
                                (Some 401, Some 602, Some (str ''b.wav'')),
                                (Some 602, Some 803, Some (str ''b.wav''))])"
    by code_simp
  show ?thesis using a b by (simp add: MIN_MATCH_MS_def)
qed

text \<open>
  C2 (amended). A fuzzy-match commit appends an entry with
  \<open>end_ms - start_ms \<ge> MIN_MATCH_MS\<close>. The weighted approximation appends entries of at
  least \<open>MIN_MATCH_MS - 1\<close> each when the remaining span of the file is at least
  \<open>MIN_MATCH_MS\<close> per pending sentence. Anchor recovery appends gap entries of at least
  \<open>MIN_MATCH_MS - 1\<close> each when the file has room for \<open>MIN_MATCH_MS\<close> per gap sentence
  after the start position, and an anchor of at least \<open>MIN_MATCH_MS\<close> unless the file end
  cuts it (then its \<open>end_ms\<close> is \<open>file_end_ms\<close>).
\<close>

theorem commit_paths_min_span:
  "(\<forall>a'. try_match_sentence score a s aggressive = Some a' \<longrightarrow>
      (\<exists>st en src. results a' = results a @ [(s, Some st, Some en, src)] \<and>
         st + MIN_MATCH_MS \<le> en)) \<and>
   (\<forall>a'. approximate_missing_chunk a sl ce_opt name fs fe = Some a' \<longrightarrow>
      (\<exists>new. results a' = results a @ new \<and> new \<noteq> [] \<and>
         (MIN_MATCH_MS * int (length new) \<le> approx_remaining a name fs fe \<longrightarrow>
            min_span (MIN_MATCH_MS - 1) new))) \<and>
   (\<forall>a'. recover_with_anchor score a sl ce_opt name fs fe lookahead = Inr (Some a') \<longrightarrow>
      (\<exists>gap anchor st2 en2.
         results a' = results a @ gap @ [(anchor, Some st2, Some en2, Some name)] \<and>
         gap \<noteq> [] \<and> en2 \<le> fe \<and>
         (en2 < fe \<longrightarrow> st2 + MIN_MATCH_MS \<le> en2) \<and>
         (file_base_start (results a) name fs + MIN_MATCH_MS * int (length gap) \<le> fe \<longrightarrow>
            min_span (MIN_MATCH_MS - 1) gap)))"
proof (intro conjI allI impI)
  fix a' assume "try_match_sentence score a s aggressive = Some a'"
  from fuzzy_commit[OF this]
  show "\<exists>st en src. results a' = results a @ [(s, Some st, Some en, src)] \<and>
         st + MIN_MATCH_MS \<le> en" by blast
next
  fix a' assume "approximate_missing_chunk a sl ce_opt name fs fe = Some a'"
  from approx_commit[OF this]
  show "\<exists>new. results a' = results a @ new \<and> new \<noteq> [] \<and>
         (MIN_MATCH_MS * int (length new) \<le> approx_remaining a name fs fe \<longrightarrow>
            min_span (MIN_MATCH_MS - 1) new)" by blast
next
  fix a' assume h: "recover_with_anchor score a sl ce_opt name fs fe lookahead = Inr (Some a')"
  from recover_commit[OF h] obtain gap anchor st2 en2 where
    r: "results a' = results a @ gap @ [(anchor, Some st2, Some en2, Some name)]" "gap \<noteq> []"
    and u: "en2 < fe \<longrightarrow> st2 + MIN_MATCH_MS \<le> en2"
    and m: "file_base_start (results a) name fs + MIN_MATCH_MS * int (length gap) \<le> fe \<longrightarrow>
              min_span (MIN_MATCH_MS - 1) gap"
    by blast
  have "r_end (last (results a')) = Some en2" unfolding r(1) by (simp add: r_end_def)
  then have c: "en2 \<le> fe" using recover_anchor_capped[OF h] r(1) by simp
  show "\<exists>gap anchor st2 en2.
         results a' = results a @ gap @ [(anchor, Some st2, Some en2, Some name)] \<and>
         gap \<noteq> [] \<and> en2 \<le> fe \<and>
         (en2 < fe \<longrightarrow> st2 + MIN_MATCH_MS \<le> en2) \<and>
         (file_base_start (results a) name fs + MIN_MATCH_MS * int (length gap) \<le> fe \<longrightarrow>
            min_span (MIN_MATCH_MS - 1) gap)"
    using r u m c by blast
qed

theorem commit_paths_min_span_witness:
  "(case try_match_sentence exact_scorer ex_hello_aligner ex_hello False of
      None \<Rightarrow> False
    | Some a' \<Rightarrow> results a' = [(ex_hello, Some 0, Some 500, None)] \<and>
                 min_span MIN_MATCH_MS (results a')) \<and>
   (case approximate_missing_chunk (init_aligner [ex_sentence ''aaaa'', ex_sentence ''bbbb''])
          [ex_sentence ''aaaa'', ex_sentence ''bbbb''] (Some 2) (str ''b.wav'') 0 1000 of
      None \<Rightarrow> False
    | Some a' \<Rightarrow> map snd (results a') = [(Some 1, Some 500, Some (str ''b.wav'')),
                                        (Some 500, Some 1000, Some (str ''b.wav''))] \<and>
                 min_span (MIN_MATCH_MS - 1) (results a')) \<and>
   (case recover_with_anchor exact_scorer
           (with_words (init_aligner [ex_sentence ''zzz'', ex_hello])
              [mk_word ''hello'' 1 (3 / 2)] (Some (str ''b.wav'')))
           [ex_sentence ''zzz'', ex_hello] (Some 2) (str ''b.wav'') 0 2000
           RECOVER_LOOKAHEAD_SENTENCES of
      Inr (Some a') \<Rightarrow> map snd (results a') = [(Some 1, Some 1000, Some (str ''b.wav'')),
                                              (Some 1000, Some 1500, Some (str ''b.wav''))] \<and>
                       min_span (MIN_MATCH_MS - 1) (results a')
    | _ \<Rightarrow> False)"
proof -
  let ?sl2 = "[ex_sentence ''aaaa'', ex_sentence ''bbbb'']"
  let ?n = "str ''b.wav''"
  let ?ra = "with_words (init_aligner [ex_sentence ''zzz'', ex_hello])
              [mk_word ''hello'' 1 (3 / 2)] (Some (str ''b.wav''))"
  let ?rsl = "[ex_sentence ''zzz'', ex_hello]"
  note T = commit_paths_min_span
  \<comment> \<open>the fuzzy match\<close>
  have f0: "(case try_match_sentence exact_scorer ex_hello_aligner ex_hello False of
      None \<Rightarrow> False
    | Some a' \<Rightarrow> results a' = [(ex_hello, Some 0, Some 500, None)])"
    by code_simp
  then obtain a1 where a1: "try_match_sentence exact_scorer ex_hello_aligner ex_hello False = Some a1"
    and r1: "results a1 = [(ex_hello, Some 0, Some 500, None)]"
    by (auto split: option.splits)
  have e0: "results ex_hello_aligner = []"
    by (simp add: ex_hello_aligner_def with_words_def init_aligner_def)
  have "\<exists>st en src. results a1 = results ex_hello_aligner @ [(ex_hello, Some st, Some en, src)] \<and>
         st + MIN_MATCH_MS \<le> en"
    by (rule T[THEN conjunct1, rule_format, OF a1])
  then have m1: "min_span MIN_MATCH_MS (results a1)"
    unfolding e0 by (auto simp: min_span_def r_start_def r_end_def)
  \<comment> \<open>the weighted approximation\<close>
  have g0: "(case approximate_missing_chunk (init_aligner ?sl2) ?sl2 (Some 2) ?n 0 1000 of
      None \<Rightarrow> False
    | Some a' \<Rightarrow> map snd (results a') = [(Some 1, Some 500, Some ?n), (Some 500, Some 1000, Some ?n)])"
    by code_simp
  then obtain a2 where a2: "approximate_missing_chunk (init_aligner ?sl2) ?sl2 (Some 2) ?n 0 1000 = Some a2"
    and r2: "map snd (results a2) = [(Some 1, Some 500, Some ?n), (Some 500, Some 1000, Some ?n)]"
    by (auto split: option.splits)
  have e2: "results (init_aligner ?sl2) = []" by (simp add: init_aligner_def)
  have rem: "approx_remaining (init_aligner ?sl2) ?n 0 1000 = 999"
    by (simp add: approx_remaining_def approx_start_def file_base_start_def e2)
  have "\<exists>new. results a2 = results (init_aligner ?sl2) @ new \<and> new \<noteq> [] \<and>
         (MIN_MATCH_MS * int (length new) \<le> approx_remaining (init_aligner ?sl2) ?n 0 1000 \<longrightarrow>
            min_span (MIN_MATCH_MS - 1) new)"
    by (rule T[THEN conjunct2, THEN conjunct1, rule_format, OF a2])
  then have i2: "MIN_MATCH_MS * int (length (results a2)) \<le> 999 \<longrightarrow>
            min_span (MIN_MATCH_MS - 1) (results a2)"
    unfolding e2 rem by simp
  have "length (map snd (results a2)) = 2" unfolding r2 by simp
  then have "length (results a2) = 2" by simp
  then have m2: "min_span (MIN_MATCH_MS - 1) (results a2)"
    using i2 by (simp add: MIN_MATCH_MS_def)
  \<comment> \<open>the anchor recovery\<close>
  have h0: "(case recover_with_anchor exact_scorer ?ra ?rsl (Some 2) ?n 0 2000
                RECOVER_LOOKAHEAD_SENTENCES of
      Inr (Some a') \<Rightarrow> map snd (results a') = [(Some 1, Some 1000, Some ?n),
                                              (Some 1000, Some 1500, Some ?n)]
    | _ \<Rightarrow> False)"
    by code_simp
  then obtain a3 where a3: "recover_with_anchor exact_scorer ?ra ?rsl (Some 2) ?n 0 2000
                RECOVER_LOOKAHEAD_SENTENCES = Inr (Some a3)"
    and r3: "map snd (results a3) = [(Some 1, Some 1000, Some ?n), (Some 1000, Some 1500, Some ?n)]"
    by (auto split: sum.splits option.splits)
  have e3: "results ?ra = []" by (simp add: with_words_def init_aligner_def)
  have b3: "file_base_start (results ?ra) ?n 0 = 1" unfolding e3 by (simp add: file_base_start_def)
  have "\<exists>gap anchor st2 en2.
         results a3 = results ?ra @ gap @ [(anchor, Some st2, Some en2, Some ?n)] \<and>
         gap \<noteq> [] \<and> en2 \<le> 2000 \<and>
         (en2 < 2000 \<longrightarrow> st2 + MIN_MATCH_MS \<le> en2) \<and>
         (file_base_start (results ?ra) ?n 0 + MIN_MATCH_MS * int (length gap) \<le> 2000 \<longrightarrow>
            min_span (MIN_MATCH_MS - 1) gap)"
    by (rule T[THEN conjunct2, THEN conjunct2, rule_format, OF a3])
  then obtain gap anchor st2 en2 where
    g: "results a3 = gap @ [(anchor, Some st2, Some en2, Some ?n)]"
    and u: "en2 < 2000 \<longrightarrow> st2 + MIN_MATCH_MS \<le> en2"
    and m: "1 + MIN_MATCH_MS * int (length gap) \<le> 2000 \<longrightarrow> min_span (MIN_MATCH_MS - 1) gap"
    unfolding e3 b3[unfolded e3] file_base_start_def by auto
  have "length (map snd (results a3)) = 2" unfolding r3 by simp
  then have lg: "length gap = 1" unfolding g by simp
  have mg: "min_span (MIN_MATCH_MS - 1) gap" using m lg by (simp add: MIN_MATCH_MS_def)
  have "last (map snd (results a3)) = (Some st2, Some en2, Some ?n)" unfolding g by simp
  then have "en2 = 1500" unfolding r3 by simp
  then have "st2 + MIN_MATCH_MS \<le> en2" using u by simp
  then have m3: "min_span (MIN_MATCH_MS - 1) (results a3)"
    using mg unfolding g by (auto simp: min_span_def r_start_def r_end_def)
  show ?thesis unfolding a1 a2 a3 using r1 m1 r2 m2 r3 m3 by simp
qed
section \<open>The balanced chunker: properties\<close>

subsection \<open>Stripping\<close>

lemma py_rstrip_Nil_iff: "py_rstrip s = [] \<longleftrightarrow> (\<forall>c\<in>set s. is_space c)"
  by (simp add: py_rstrip_def dropWhile_eq_Nil_conv)





lemma py_strip_Nil: "py_strip [] = []"
  by (simp add: py_strip_def py_lstrip_def py_rstrip_def)

lemma length_py_strip: "length (py_strip s) \<le> length s"
proof -
  have "length (py_strip s) \<le> length (dropWhile is_space s)"
    by (simp add: py_strip_def py_lstrip_def py_rstrip_def)
       (metis length_dropWhile_le length_rev)
  also have "\<dots> \<le> length s" by (rule length_dropWhile_le)
  finally show ?thesis .
qed

lemma filter_dropWhile_space:
  "filter (\<lambda>c. \<not> is_space c) (dropWhile is_space s) = filter (\<lambda>c. \<not> is_space c) s"
  by (induction s) auto

lemma filter_py_strip:
  "filter (\<lambda>c. \<not> is_space c) (py_strip s) = filter (\<lambda>c. \<not> is_space c) s"
proof -
  have "filter (\<lambda>c. \<not> is_space c) (rev (dropWhile is_space (rev t))) = filter (\<lambda>c. \<not> is_space c) t"
    for t
    using filter_dropWhile_space[of "rev t"] by (metis rev_filter rev_rev_ident)
  then show ?thesis
    by (simp add: py_strip_def py_lstrip_def py_rstrip_def filter_dropWhile_space)
qed

lemma py_strip_Nil_filter:
  "py_strip s = [] \<Longrightarrow> filter (\<lambda>c. \<not> is_space c) s = []"
  using filter_py_strip[of s] by simp

subsection \<open>C10: \<^verbatim>\<open>split_balanced\<close> against \<^verbatim>\<open>split_balanced_tts\<close>\<close>






end
